theory Spec2Isabelle
  imports Complex_Main
begin

section \<open>Tensors, errors and embedding tables\<close>

text \<open>
  The development embeds \<^verbatim>\<open>kbc/models.py\<close>. A two-dimensional float tensor is the list
  of its rows; its entries are idealised as real numbers (rounding and overflow of
  \<^verbatim>\<open>float32\<close> are not modelled). A tensor of triples of ids
  (\<^verbatim>\<open>torch.LongTensor\<close>) is a list of integer triples. The exceptions that the
  code can meet are values of \<open>error\<close>.
\<close>

datatype error = IndexError | KeyError | RuntimeError

type_synonym matrix = "real list list"

type_synonym triple = "int \<times> int \<times> int"

text \<open>
  \<^verbatim>\<open>nn.Embedding.forward\<close>: one row of the weight table per id; an id outside
  \<open>[0, rows)\<close> raises.
\<close>

definition embedding :: "matrix \<Rightarrow> int list \<Rightarrow> error + matrix" where
  "embedding W ids =
     (if \<forall>i \<in> set ids. 0 \<le> i \<and> i < int (length W)
      then Inr (map (\<lambda>i. W ! nat i) ids)
      else Inl IndexError)"

text \<open>
  Element-wise arithmetic of two tensors of one shape (\<^verbatim>\<open>a * b\<close>, \<^verbatim>\<open>a + b\<close>,
  \<^verbatim>\<open>a - b\<close>). Broadcasting of unequal shapes is outside the model: every statement
  below is about operands of equal shape.
\<close>

definition vmul :: "real list \<Rightarrow> real list \<Rightarrow> real list" where
  "vmul a b = map2 (*) a b"

definition vadd :: "real list \<Rightarrow> real list \<Rightarrow> real list" where
  "vadd a b = map2 (+) a b"

definition vsub :: "real list \<Rightarrow> real list \<Rightarrow> real list" where
  "vsub a b = map2 (-) a b"

definition mmul :: "matrix \<Rightarrow> matrix \<Rightarrow> matrix" where
  "mmul A B = map2 vmul A B"

definition madd :: "matrix \<Rightarrow> matrix \<Rightarrow> matrix" where
  "madd A B = map2 vadd A B"

definition msub :: "matrix \<Rightarrow> matrix \<Rightarrow> matrix" where
  "msub A B = map2 vsub A B"

text \<open>
  \<^verbatim>\<open>torch.sum(t, 1, keepdim=True)\<close>: the column of the row sums, kept as the list of
  its entries. \<^verbatim>\<open>torch.mean\<close> of a tensor without elements is NaN, which is
  \<open>None\<close> here.
\<close>

definition sum_dim1 :: "matrix \<Rightarrow> real list" where
  "sum_dim1 A = map sum_list A"

definition mean :: "real list \<Rightarrow> real option" where
  "mean xs = (if xs = [] then None else Some (sum_list xs / real (length xs)))"

text \<open>Column slices \<^verbatim>\<open>t[:, :rank]\<close> and \<^verbatim>\<open>t[:, rank:]\<close>.\<close>

definition cols_to :: "nat \<Rightarrow> matrix \<Rightarrow> matrix" where
  "cols_to k A = map (take k) A"

definition cols_from :: "nat \<Rightarrow> matrix \<Rightarrow> matrix" where
  "cols_from k A = map (drop k) A"

section \<open>Scoring core: CP\<close>

record cp_model =
  cp_sizes :: "nat \<times> nat \<times> nat"
  cp_rank :: nat
  cp_lhs :: matrix
  cp_rel :: matrix
  cp_rhs :: matrix

text \<open>What \<^verbatim>\<open>CP.__init__\<close> establishes: three tables of \<open>rank\<close> columns.\<close>

definition wf_table :: "nat \<Rightarrow> nat \<Rightarrow> matrix \<Rightarrow> bool" where
  "wf_table n d W \<longleftrightarrow> length W = n \<and> (\<forall>row \<in> set W. length row = d)"

definition wf_cp :: "cp_model \<Rightarrow> bool" where
  "wf_cp m \<longleftrightarrow>
     wf_table (fst (cp_sizes m)) (cp_rank m) (cp_lhs m) \<and>
     wf_table (fst (snd (cp_sizes m))) (cp_rank m) (cp_rel m) \<and>
     wf_table (snd (snd (cp_sizes m))) (cp_rank m) (cp_rhs m)"

definition cp_score :: "cp_model \<Rightarrow> triple list \<Rightarrow> error + real list" where
  "cp_score m x =
     (case embedding (cp_lhs m) (map fst x) of
        Inl e \<Rightarrow> Inl e
      | Inr lhs \<Rightarrow>
          (case embedding (cp_rel m) (map (\<lambda>t. fst (snd t)) x) of
             Inl e \<Rightarrow> Inl e
           | Inr rel \<Rightarrow>
               (case embedding (cp_rhs m) (map (\<lambda>t. snd (snd t)) x) of
                  Inl e \<Rightarrow> Inl e
                | Inr rhs \<Rightarrow> Inr (sum_dim1 (mmul (mmul lhs rel) rhs)))))"

definition cp_score_emb :: "matrix \<Rightarrow> matrix \<Rightarrow> matrix \<Rightarrow> real option" where
  "cp_score_emb lhs rel rhs = mean (sum_dim1 (mmul (mmul lhs rel) rhs))"

section \<open>Scoring core: ComplEx\<close>

record complex_model =
  cx_sizes :: "nat \<times> nat \<times> nat"
  cx_rank :: nat
  cx_embeddings0 :: matrix
  cx_embeddings1 :: matrix

text \<open>
  What \<^verbatim>\<open>ComplEx.__init__\<close> establishes: an entity table and a relation table of
  \<open>2 * rank\<close> columns each.
\<close>

definition wf_complex :: "complex_model \<Rightarrow> bool" where
  "wf_complex m \<longleftrightarrow>
     wf_table (fst (cx_sizes m)) (2 * cx_rank m) (cx_embeddings0 m) \<and>
     wf_table (fst (snd (cx_sizes m))) (2 * cx_rank m) (cx_embeddings1 m)"

text \<open>The bilinear form that \<^verbatim>\<open>score\<close> and \<^verbatim>\<open>score_emb\<close> both sum over dimension 1.\<close>

definition complex_product :: "nat \<Rightarrow> matrix \<Rightarrow> matrix \<Rightarrow> matrix \<Rightarrow> matrix" where
  "complex_product rank lhs rel rhs =
     (let lhs0 = cols_to rank lhs; lhs1 = cols_from rank lhs;
          rel0 = cols_to rank rel; rel1 = cols_from rank rel;
          rhs0 = cols_to rank rhs; rhs1 = cols_from rank rhs
      in madd (mmul (msub (mmul lhs0 rel0) (mmul lhs1 rel1)) rhs0)
              (mmul (madd (mmul lhs0 rel1) (mmul lhs1 rel0)) rhs1))"

definition complex_score :: "complex_model \<Rightarrow> triple list \<Rightarrow> error + real list" where
  "complex_score m x =
     (case embedding (cx_embeddings0 m) (map fst x) of
        Inl e \<Rightarrow> Inl e
      | Inr lhs \<Rightarrow>
          (case embedding (cx_embeddings1 m) (map (\<lambda>t. fst (snd t)) x) of
             Inl e \<Rightarrow> Inl e
           | Inr rel \<Rightarrow>
               (case embedding (cx_embeddings0 m) (map (\<lambda>t. snd (snd t)) x) of
                  Inl e \<Rightarrow> Inl e
                | Inr rhs \<Rightarrow> Inr (sum_dim1 (complex_product (cx_rank m) lhs rel rhs)))))"

definition complex_score_emb :: "complex_model \<Rightarrow> matrix \<Rightarrow> matrix \<Rightarrow> matrix \<Rightarrow> real option" where
  "complex_score_emb m lhs rel rhs = mean (sum_dim1 (complex_product (cx_rank m) lhs rel rhs))"

section \<open>The model interface\<close>

text \<open>
  \<^verbatim>\<open>KBCModel\<close> is abstract; its two subclasses are the two constructors. The
  methods that \<^verbatim>\<open>get_ranking\<close> and the inverse query solver call dispatch on them.
\<close>

datatype kbc_model = CP cp_model | ComplEx complex_model

definition sizes :: "kbc_model \<Rightarrow> nat \<times> nat \<times> nat" where
  "sizes m = (case m of CP c \<Rightarrow> cp_sizes c | ComplEx c \<Rightarrow> cx_sizes c)"

text \<open>
  For ComplEx the candidates are the rows of the entity table, so ranking over
  \<^verbatim>\<open>sizes[2]\<close> candidates supposes as many entities as \<^verbatim>\<open>sizes[0]\<close>.
\<close>

definition wf_model :: "kbc_model \<Rightarrow> bool" where
  "wf_model m =
     (case m of
        CP c \<Rightarrow> wf_cp c
      | ComplEx c \<Rightarrow> wf_complex c \<and> snd (snd (cx_sizes c)) = fst (cx_sizes c))"

definition score :: "kbc_model \<Rightarrow> triple list \<Rightarrow> error + real list" where
  "score m x = (case m of CP c \<Rightarrow> cp_score c x | ComplEx c \<Rightarrow> complex_score c x)"

definition score_emb :: "kbc_model \<Rightarrow> matrix \<Rightarrow> matrix \<Rightarrow> matrix \<Rightarrow> real option" where
  "score_emb m lhs rel rhs =
     (case m of CP c \<Rightarrow> cp_score_emb lhs rel rhs | ComplEx c \<Rightarrow> complex_score_emb c lhs rel rhs)"

text \<open>
  A Python slice \<^verbatim>\<open>xs[a:b]\<close>: a negative bound counts from the end, and both bounds
  are clipped to the list.
\<close>

definition py_bound :: "nat \<Rightarrow> int \<Rightarrow> nat" where
  "py_bound n i = (if i < 0 then nat (max 0 (i + int n)) else min n (nat i))"

definition py_slice :: "'a list \<Rightarrow> int \<Rightarrow> int \<Rightarrow> 'a list" where
  "py_slice xs a b =
     (let lo = py_bound (length xs) a; hi = py_bound (length xs) b
      in take (hi - lo) (drop lo xs))"

text \<open>Indexing \<^verbatim>\<open>xs[i]\<close>: a negative index counts from the end; out of range raises.\<close>

definition py_item :: "'a list \<Rightarrow> int \<Rightarrow> error + 'a" where
  "py_item xs i =
     (let n = int (length xs); j = (if i < 0 then i + n else i)
      in if 0 \<le> j \<and> j < n then Inr (xs ! nat j) else Inl IndexError)"

text \<open>
  \<^verbatim>\<open>get_rhs\<close> returns the transposed slice of the candidate table: a matrix of
  \<open>d\<close> rows whose columns are the candidates' embeddings. It is kept as the list of its
  columns, which are the rows of the slice.
\<close>

definition get_rhs :: "kbc_model \<Rightarrow> int \<Rightarrow> int \<Rightarrow> matrix" where
  "get_rhs m chunk_begin chunk_size =
     (case m of
        CP c \<Rightarrow> py_slice (cp_rhs c) chunk_begin (chunk_begin + chunk_size)
      | ComplEx c \<Rightarrow> py_slice (cx_embeddings0 c) chunk_begin (chunk_begin + chunk_size))"

text \<open>\<^verbatim>\<open>torch.cat([a, b], 1)\<close>: rows side by side.\<close>

definition cat1 :: "matrix \<Rightarrow> matrix \<Rightarrow> matrix" where
  "cat1 A B = map2 (@) A B"

definition get_queries :: "kbc_model \<Rightarrow> triple list \<Rightarrow> error + matrix" where
  "get_queries m queries =
     (case m of
        CP c \<Rightarrow>
          (case embedding (cp_lhs c) (map fst queries) of
             Inl e \<Rightarrow> Inl e
           | Inr lhs \<Rightarrow>
               (case embedding (cp_rel c) (map (\<lambda>t. fst (snd t)) queries) of
                  Inl e \<Rightarrow> Inl e
                | Inr rel \<Rightarrow> Inr (mmul lhs rel)))
      | ComplEx c \<Rightarrow>
          (case embedding (cx_embeddings0 c) (map fst queries) of
             Inl e \<Rightarrow> Inl e
           | Inr lhs \<Rightarrow>
               (case embedding (cx_embeddings1 c) (map (\<lambda>t. fst (snd t)) queries) of
                  Inl e \<Rightarrow> Inl e
                | Inr rel \<Rightarrow>
                    (let lhs0 = cols_to (cx_rank c) lhs; lhs1 = cols_from (cx_rank c) lhs;
                         rel0 = cols_to (cx_rank c) rel; rel1 = cols_from (cx_rank c) rel
                     in Inr (cat1 (msub (mmul lhs0 rel0) (mmul lhs1 rel1))
                                  (madd (mmul lhs0 rel1) (mmul lhs1 rel0)))))))"

text \<open>
  The product \<^verbatim>\<open>q @ rhs\<close> of the query embeddings with the transposed candidate slice,
  given by its columns: entry \<open>(i, j)\<close> is the inner product of query row \<open>i\<close> with
  candidate \<open>j\<close>. Both have the model's embedding width.
\<close>

definition dot :: "real list \<Rightarrow> real list \<Rightarrow> real" where
  "dot a b = sum_list (vmul a b)"

definition matmul :: "matrix \<Rightarrow> matrix \<Rightarrow> matrix" where
  "matmul q rhs_cols = map (\<lambda>row. map (\<lambda>col. dot row col) rhs_cols) q"

section \<open>Filtered ranking\<close>

text \<open>
  The filter dictionary maps a (subject, relation) key to its list of object ids; distinct
  keys hold distinct lists. \<^verbatim>\<open>get_ranking\<close> appends to these lists in place, so the
  model threads the dictionary through every step and returns it beside the outcome,
  also when an exception ends the call.
\<close>

type_synonym filters = "(int \<times> int) \<rightharpoonup> int list"

text \<open>
  \<^verbatim>\<open>row[torch.LongTensor(idxs)] = -1e6\<close>: every listed position is overwritten; a
  negative index counts from the end, an index outside the row raises.
\<close>

definition index_fill :: "real list \<Rightarrow> int list \<Rightarrow> error + real list" where
  "index_fill row idxs =
     (let n = int (length row)
      in if \<forall>x \<in> set idxs. - n \<le> x \<and> x < n
         then Inr (fold (\<lambda>x r. r[nat (if x < 0 then x + n else x) := - 1000000]) idxs row)
         else Inl IndexError)"

text \<open>
  The loop over \<^verbatim>\<open>enumerate(these_queries)\<close>, lines 71 to 78: \<open>i\<close> is the position in
  the batch, \<open>scores\<close> the batch's score matrix, updated row by row.
\<close>

fun mask_filtered ::
  "nat \<Rightarrow> int \<Rightarrow> int \<Rightarrow> triple list \<Rightarrow> int \<Rightarrow> nat \<Rightarrow> triple list \<Rightarrow> matrix \<Rightarrow> filters
     \<Rightarrow> (error + matrix) \<times> filters" where
  "mask_filtered n chunk_size c_begin queries b_begin i [] scores filters = (Inr scores, filters)"
| "mask_filtered n chunk_size c_begin queries b_begin i (query # rest) scores filters =
     (case filters (fst query, fst (snd query)) of
        None \<Rightarrow> (Inl KeyError, filters)
      | Some filter_out0 \<Rightarrow>
          (case py_item queries (b_begin + int i) of
             Inl e \<Rightarrow> (Inl e, filters)
           | Inr t \<Rightarrow>
               (let filter_out = filter_out0 @ [snd (snd t)];
                    filters' = filters((fst query, fst (snd query)) \<mapsto> filter_out);
                    idxs = (if chunk_size < int n
                            then map (\<lambda>x. x - c_begin)
                                   (filter (\<lambda>x. c_begin \<le> x \<and> x < c_begin + chunk_size) filter_out)
                            else filter_out)
                in case index_fill (scores ! i) idxs of
                     Inl e \<Rightarrow> (Inl e, filters')
                   | Inr row \<Rightarrow>
                       mask_filtered n chunk_size c_begin queries b_begin (Suc i) rest
                         (scores[i := row]) filters')))"

text \<open>
  \<^verbatim>\<open>torch.sum((scores >= targets).float(), dim=1)\<close>, the target column broadcast along
  each row, and the in-place addition to the slice \<^verbatim>\<open>ranks[a:b]\<close>. The ranks are a float
  tensor holding whole numbers; they are kept as naturals.
\<close>

definition count_ge :: "matrix \<Rightarrow> real list \<Rightarrow> nat list" where
  "count_ge scores targets = map2 (\<lambda>row t. length (filter (\<lambda>s. t \<le> s) row)) scores targets"

definition slice_add :: "nat list \<Rightarrow> int \<Rightarrow> int \<Rightarrow> nat list \<Rightarrow> nat list" where
  "slice_add xs a b ys =
     (let lo = py_bound (length xs) a; hi = max lo (py_bound (length xs) b)
      in take lo xs @ map2 (+) (take (hi - lo) (drop lo xs)) ys @ drop hi xs)"

text \<open>One pass of the inner loop's body, lines 63 to 80.\<close>

definition rank_batch ::
  "kbc_model \<Rightarrow> triple list \<Rightarrow> int \<Rightarrow> int \<Rightarrow> int \<Rightarrow> matrix \<Rightarrow> int \<Rightarrow> nat list \<Rightarrow> filters
     \<Rightarrow> (error + nat list) \<times> filters" where
  "rank_batch m queries batch_size chunk_size c_begin rhs b_begin ranks filters =
     (let these_queries = py_slice queries b_begin (b_begin + batch_size)
      in case get_queries m these_queries of
           Inl e \<Rightarrow> (Inl e, filters)
         | Inr q \<Rightarrow>
             (let scores = matmul q rhs
              in case score m these_queries of
                   Inl e \<Rightarrow> (Inl e, filters)
                 | Inr targets \<Rightarrow>
                     (case mask_filtered (snd (snd (sizes m))) chunk_size c_begin queries b_begin 0
                             these_queries scores filters of
                        (Inl e, filters') \<Rightarrow> (Inl e, filters')
                      | (Inr scores', filters') \<Rightarrow>
                          (Inr (slice_add ranks b_begin (b_begin + batch_size)
                                  (count_ge scores' targets)), filters'))))"

text \<open>
  The two \<^verbatim>\<open>while\<close> loops. Neither is bounded by its text: a batch size or a chunk
  size that does not advance the counter keeps the loop running, which is the value
  \<open>None\<close>.
\<close>

partial_function (option) batch_loop ::
  "kbc_model \<Rightarrow> triple list \<Rightarrow> int \<Rightarrow> int \<Rightarrow> int \<Rightarrow> matrix \<Rightarrow> int \<Rightarrow> nat list \<Rightarrow> filters
     \<Rightarrow> ((error + nat list) \<times> filters) option" where
  "batch_loop m queries batch_size chunk_size c_begin rhs b_begin ranks filters =
     (if b_begin < int (length queries)
      then (case rank_batch m queries batch_size chunk_size c_begin rhs b_begin ranks filters of
              (Inl e, filters') \<Rightarrow> Some (Inl e, filters')
            | (Inr ranks', filters') \<Rightarrow>
                batch_loop m queries batch_size chunk_size c_begin rhs (b_begin + batch_size)
                  ranks' filters')
      else Some (Inr ranks, filters))"

partial_function (option) chunk_loop ::
  "kbc_model \<Rightarrow> triple list \<Rightarrow> int \<Rightarrow> int \<Rightarrow> int \<Rightarrow> nat list \<Rightarrow> filters
     \<Rightarrow> ((error + nat list) \<times> filters) option" where
  "chunk_loop m queries batch_size chunk_size c_begin ranks filters =
     (if c_begin < int (snd (snd (sizes m)))
      then (case batch_loop m queries batch_size chunk_size c_begin
                   (get_rhs m c_begin chunk_size) 0 ranks filters of
              None \<Rightarrow> None
            | Some (Inl e, filters') \<Rightarrow> Some (Inl e, filters')
            | Some (Inr ranks', filters') \<Rightarrow>
                chunk_loop m queries batch_size chunk_size (c_begin + chunk_size) ranks' filters')
      else Some (Inr ranks, filters))"

declare batch_loop.simps [code]

declare chunk_loop.simps [code]

definition get_ranking ::
  "kbc_model \<Rightarrow> triple list \<Rightarrow> filters \<Rightarrow> int \<Rightarrow> int \<Rightarrow> ((error + nat list) \<times> filters) option" where
  "get_ranking m queries filters batch_size chunk_size =
     (let chunk_size = (if chunk_size < 0 then int (snd (snd (sizes m))) else chunk_size)
      in chunk_loop m queries batch_size chunk_size 0 (replicate (length queries) 1) filters)"

section \<open>Nearest-neighbour matcher\<close>

text \<open>
  \<^verbatim>\<open>str.lower\<close> on ASCII text and the substring test \<^verbatim>\<open>needle in text\<close>, which
  select the metric and the strategy.
\<close>

definition lower_char :: "char \<Rightarrow> char" where
  "lower_char c =
     (let k = (of_char c :: nat) in if 65 \<le> k \<and> k \<le> 90 then char_of (k + 32) else c)"

definition lower :: "string \<Rightarrow> string" where
  "lower s = map lower_char s"

fun str_in :: "string \<Rightarrow> string \<Rightarrow> bool" where
  "str_in needle [] = (needle = [])"
| "str_in needle (c # cs) = (take (length needle) (c # cs) = needle \<or> str_in needle cs)"

text \<open>
  \<^verbatim>\<open>torch.argmin\<close> of a vector: the index of the first minimal entry; it raises on a
  vector without entries, which is \<open>None\<close>.
\<close>

fun argmin :: "real list \<Rightarrow> nat option" where
  "argmin [] = None"
| "argmin (x # xs) =
     (case argmin xs of
        None \<Rightarrow> Some 0
      | Some j \<Rightarrow> if xs ! j < x then Some (Suc j) else Some 0)"

text \<open>
  \<^verbatim>\<open>__expanded_pairwise_distances__\<close>: squared norms plus the expanded cross term.
  \<^verbatim>\<open>torch.mm\<close> raises \<^verbatim>\<open>RuntimeError\<close> when the widths differ; the function prints it
  and returns \<^verbatim>\<open>None\<close>. The definition gives the shape of the result and when the
  function fails. Its entries are the exact values of the expression: in \<^verbatim>\<open>float32\<close>
  the three terms cancel (for the vectors \<open>(4096, 1)\<close> and \<open>(4096, 0)\<close> the code
  computes 0 where the expression is 1), so no statement of this development is drawn
  from the value of an entry or from the index at which a row is least.
\<close>

definition sq_norm :: "real list \<Rightarrow> real" where
  "sq_norm v = sum_list (map (\<lambda>a. a ^ 2) v)"

definition expanded_pairwise_distances :: "matrix \<Rightarrow> matrix option \<Rightarrow> matrix option" where
  "expanded_pairwise_distances x y_opt =
     (let x_norm = map sq_norm x;
          y = (case y_opt of Some y \<Rightarrow> y | None \<Rightarrow> x);
          y_norm = (case y_opt of Some y \<Rightarrow> map sq_norm y | None \<Rightarrow> x_norm)
      in if list_all (\<lambda>a. list_all (\<lambda>b. length a = length b) y) x
         then Some (map2 (\<lambda>a na. map2 (\<lambda>b nb. na + nb - 2 * dot a b) y y_norm) x x_norm)
         else None)"

text \<open>
  The two library distances of \<^verbatim>\<open>__closest_vector__\<close>, each between one query vector
  and every row of the candidate matrix, as the library documents them:
  \<^verbatim>\<open>pairwise_distance\<close> is the 2-norm of \<open>x - y + eps\<close>, and
  \<^verbatim>\<open>cosine_similarity\<close> is the inner product over the product of the norms, each norm
  at least \<open>eps\<close>. A query and a row of unequal widths broadcast when one of them has
  width 1 and raise otherwise. Here too the entries are exact values: in
  \<^verbatim>\<open>float32\<close> the term \<open>eps = 1e-8\<close> is absorbed by a difference of ordinary size,
  so nothing is stated about the index that the Euclidean branch of
  \<^verbatim>\<open>__closest_vector__\<close> returns. The statement about the cosine branch uses only
  that the index returned is one where the computed similarity is least.
\<close>

definition broadcast :: "real list \<Rightarrow> real list \<Rightarrow> (real list \<times> real list) option" where
  "broadcast a b =
     (if length a = length b then Some (a, b)
      else if length a = 1 then Some (replicate (length b) (hd a), b)
      else if length b = 1 then Some (a, replicate (length a) (hd b))
      else None)"

definition eps :: real where
  "eps = 1 / 10 ^ 8"

definition pairwise_distance :: "real list \<Rightarrow> matrix \<Rightarrow> real list option" where
  "pairwise_distance x1 x2 =
     (if list_all (\<lambda>y. broadcast x1 y \<noteq> None) x2
      then Some (map (\<lambda>y. case the (broadcast x1 y) of
                             (a, b) \<Rightarrow> sqrt (sq_norm (map (\<lambda>d. d + eps) (vsub a b)))) x2)
      else None)"

definition cosine_similarity :: "real list \<Rightarrow> matrix \<Rightarrow> real list option" where
  "cosine_similarity x1 x2 =
     (if list_all (\<lambda>y. broadcast x1 y \<noteq> None) x2
      then Some (map (\<lambda>y. case the (broadcast x1 y) of
                             (a, b) \<Rightarrow> dot a b / (max (sqrt (sq_norm a)) eps * max (sqrt (sq_norm b)) eps)) x2)
      else None)"

text \<open>
  \<^verbatim>\<open>__closest_vector__\<close>. Every exception is caught, printed and turned into
  \<^verbatim>\<open>None\<close>: a metric that matches neither branch leaves \<^verbatim>\<open>dists\<close> unbound, unequal
  widths and an empty candidate matrix make the library raise.
\<close>

definition closest_vector :: "real list \<Rightarrow> matrix \<Rightarrow> string \<Rightarrow> (nat \<times> real list) option" where
  "closest_vector obj_vec search_list similarity_metric =
     (let dists =
            (if str_in ''euclid'' (lower similarity_metric) \<or> str_in ''l2'' (lower similarity_metric)
             then pairwise_distance obj_vec search_list
             else if str_in ''cos'' (lower similarity_metric)
             then cosine_similarity obj_vec search_list
             else None)
      in case dists of
           None \<Rightarrow> None
         | Some ds \<Rightarrow>
             (case argmin ds of
                None \<Rightarrow> None
              | Some min_ind \<Rightarrow> Some (min_ind, search_list ! min_ind)))"

text \<open>
  \<^verbatim>\<open>__closest_matrix__\<close> returns a stacked tensor of (index, distance) rows on the fast
  path, a Python list of the results of \<^verbatim>\<open>__closest_vector__\<close> on the other paths,
  and \<^verbatim>\<open>None\<close> after a caught exception. The copies to the accelerator at its start
  do not change any value.
\<close>

datatype closest = Stacked "(real \<times> real) list" | Listed "(nat \<times> real list) option list"

definition closest_matrix :: "matrix \<Rightarrow> matrix \<Rightarrow> string \<Rightarrow> string \<Rightarrow> closest option" where
  "closest_matrix obj_matrix search_list similarity_metric dist_comput_method =
     (if str_in ''euclid'' (lower similarity_metric) \<or> str_in ''l2'' (lower similarity_metric)
      then
        (if str_in ''fast'' (lower dist_comput_method)
         then
           (case expanded_pairwise_distances obj_matrix (Some search_list) of
              None \<Rightarrow> None
            | Some dists \<Rightarrow>
                (if search_list = [] then None
                 else (case those (map argmin dists) of
                         None \<Rightarrow> None
                       | Some min_inds \<Rightarrow>
                           Some (Stacked (map2 (\<lambda>row min_ind. (real min_ind, row ! min_ind))
                                            dists min_inds)))))
         else if str_in ''stable'' (lower dist_comput_method)
         then Some (Listed (map (\<lambda>obj_vec. closest_vector obj_vec search_list similarity_metric) obj_matrix))
         else None)
      else if str_in ''cosine'' (lower similarity_metric)
      then Some (Listed (map (\<lambda>obj_vec. closest_vector obj_vec search_list similarity_metric) obj_matrix))
      else Some (Listed []))"

section \<open>Inverse query solver\<close>

text \<open>
  The optimisation loop of \<^verbatim>\<open>projected_gradient_descent\<close>, lines 108 to 131. The
  regulariser, the random initial guess and the optimiser are collaborators: the first is
  a function of the three embeddings, and \<open>opt_step\<close> stands for
  \<^verbatim>\<open>zero_grad\<close>, \<^verbatim>\<open>backward\<close> and \<^verbatim>\<open>optimizer.step\<close> together, which take the loss
  as a function of the guess and move the guess and the optimiser's state, or raise
  \<^verbatim>\<open>RuntimeError\<close>. A loss is \<open>None\<close> when it is NaN, and a comparison with NaN is
  false.
\<close>

definition improving :: "real option \<Rightarrow> real option \<Rightarrow> bool" where
  "improving prev_loss loss =
     (case prev_loss of
        None \<Rightarrow> False
      | Some p \<Rightarrow> (case loss of None \<Rightarrow> False | Some l \<Rightarrow> p - l > 1 / 10 ^ 20))"

record 'o pgd_state =
  prev_loss :: "real option"
  loss :: "real option"
  obj_guess :: matrix
  optimizer :: 'o

definition pgd_body ::
  "kbc_model \<Rightarrow> (matrix \<times> matrix \<times> matrix \<Rightarrow> real)
     \<Rightarrow> ((matrix \<Rightarrow> real option) \<Rightarrow> matrix \<times> 'o \<Rightarrow> error + matrix \<times> 'o)
     \<Rightarrow> matrix \<Rightarrow> matrix \<Rightarrow> 'o pgd_state \<Rightarrow> error + 'o pgd_state" where
  "pgd_body m regularizer opt_step lhs pred s =
     (let loss_at = (\<lambda>g. map_option (\<lambda>sc. - (sc - regularizer (lhs, pred, g))) (score_emb m lhs pred g))
      in case opt_step loss_at (obj_guess s, optimizer s) of
           Inl e \<Rightarrow> Inl e
         | Inr (g', o') \<Rightarrow>
             Inr \<lparr>prev_loss = loss s, loss = loss_at (obj_guess s), obj_guess = g', optimizer = o'\<rparr>)"

text \<open>The \<^verbatim>\<open>while\<close> loop, with the counter \<open>i\<close> that it returns beside the state.\<close>

function pgd_loop ::
  "('o pgd_state \<Rightarrow> error + 'o pgd_state) \<Rightarrow> int \<Rightarrow> int \<Rightarrow> 'o pgd_state
     \<Rightarrow> error + int \<times> 'o pgd_state" where
  "pgd_loop body max_steps i s =
     (if i \<le> max_steps \<and> improving (prev_loss s) (loss s)
      then (case body s of
              Inl e \<Rightarrow> Inl e
            | Inr s' \<Rightarrow> pgd_loop body max_steps (i + 1) s')
      else Inr (i, s))"
  by pat_completeness auto
termination
  by (relation "measure (\<lambda>(body, max_steps, i, s). nat (max_steps + 1 - i))") auto

text \<open>
  The loop from its initial values (\<open>i = 1\<close>, the two sentinel losses 1000 and 999),
  followed by the test \<^verbatim>\<open>i != max_steps\<close> that prints the early convergence message:
  the result holds that flag, the final counter and the final state. A
  \<^verbatim>\<open>RuntimeError\<close> of the body leaves the function through its handler.
\<close>

definition pgd_optimise ::
  "kbc_model \<Rightarrow> (matrix \<times> matrix \<times> matrix \<Rightarrow> real)
     \<Rightarrow> ((matrix \<Rightarrow> real option) \<Rightarrow> matrix \<times> 'o \<Rightarrow> error + matrix \<times> 'o)
     \<Rightarrow> matrix \<Rightarrow> matrix \<Rightarrow> matrix \<Rightarrow> 'o \<Rightarrow> int \<Rightarrow> error + bool \<times> int \<times> 'o pgd_state" where
  "pgd_optimise m regularizer opt_step lhs pred guess0 opt0 max_steps =
     (case pgd_loop (pgd_body m regularizer opt_step lhs pred) max_steps 1
             \<lparr>prev_loss = Some 1000, loss = Some 999, obj_guess = guess0, optimizer = opt0\<rparr> of
        Inl e \<Rightarrow> Inl e
      | Inr (i, s) \<Rightarrow> Inr (i \<noteq> max_steps, i, s))"

section \<open>Reference definitions\<close>

text \<open>
  The statements below compare the code with the definitions of this section. They are
  not translated from the code: they say what a result is, one row, one query or one
  pass at a time. First the two scores as the specification words them, sums over the
  dimensions.
\<close>

definition cp_closed_form :: "real list \<Rightarrow> real list \<Rightarrow> real list \<Rightarrow> real" where
  "cp_closed_form l r o' = (\<Sum>k<length l. l ! k * r ! k * o' ! k)"

definition complex_closed_form :: "nat \<Rightarrow> real list \<Rightarrow> real list \<Rightarrow> real list \<Rightarrow> real" where
  "complex_closed_form rank l r o' =
     (\<Sum>k<rank. (l ! k * r ! k - l ! (rank + k) * r ! (rank + k)) * o' ! k
               + (l ! k * r ! (rank + k) + l ! (rank + k) * r ! k) * o' ! (rank + k))"

text \<open>One row of \<open>complex_product\<close>.\<close>

definition row_product :: "nat \<Rightarrow> real list \<Rightarrow> real list \<Rightarrow> real list \<Rightarrow> real list" where
  "row_product rank l r o' =
     vadd (vmul (vsub (vmul (take rank l) (take rank r)) (vmul (drop rank l) (drop rank r))) (take rank o'))
          (vmul (vadd (vmul (take rank l) (drop rank r)) (vmul (drop rank l) (take rank r))) (drop rank o'))"

text \<open>An id that indexes a row of an embedding table.\<close>

definition in_table :: "matrix \<Rightarrow> int \<Rightarrow> bool" where
  "in_table W i \<longleftrightarrow> 0 \<le> i \<and> i < int (length W)"

text \<open>
  The body of the optimisation loop run \<open>k\<close> times without the loop's test, stopping at
  the first exception.
\<close>

fun pgd_unroll :: "('s \<Rightarrow> error + 's) \<Rightarrow> nat \<Rightarrow> 's \<Rightarrow> error + 's" where
  "pgd_unroll body 0 s = Inr s"
| "pgd_unroll body (Suc k) s = (case body s of Inl e \<Rightarrow> Inl e | Inr s' \<Rightarrow> pgd_unroll body k s')"

text \<open>
  For the ranking: the key and the true object of a query, the candidate table, the
  triples that index the tables, and one row of \<^verbatim>\<open>get_queries\<close> and of \<^verbatim>\<open>score\<close>.
\<close>

definition key :: "triple \<Rightarrow> int \<times> int" where
  "key t = (fst t, fst (snd t))"

definition obj :: "triple \<Rightarrow> int" where
  "obj t = snd (snd t)"

definition candidates :: "kbc_model \<Rightarrow> matrix" where
  "candidates m = (case m of CP c \<Rightarrow> cp_rhs c | ComplEx c \<Rightarrow> cx_embeddings0 c)"

definition ids_ok :: "kbc_model \<Rightarrow> triple \<Rightarrow> bool" where
  "ids_ok m t =
     (case m of
        CP c \<Rightarrow> in_table (cp_lhs c) (fst t) \<and> in_table (cp_rel c) (fst (snd t))
                 \<and> in_table (cp_rhs c) (snd (snd t))
      | ComplEx c \<Rightarrow> in_table (cx_embeddings0 c) (fst t) \<and> in_table (cx_embeddings1 c) (fst (snd t))
                 \<and> in_table (cx_embeddings0 c) (snd (snd t)))"

definition query_vec :: "kbc_model \<Rightarrow> triple \<Rightarrow> real list" where
  "query_vec m t =
     (case m of
        CP c \<Rightarrow> vmul (cp_lhs c ! nat (fst t)) (cp_rel c ! nat (fst (snd t)))
      | ComplEx c \<Rightarrow>
          (let l = cx_embeddings0 c ! nat (fst t); r = cx_embeddings1 c ! nat (fst (snd t));
               k = cx_rank c
           in vsub (vmul (take k l) (take k r)) (vmul (drop k l) (drop k r))
              @ vadd (vmul (take k l) (drop k r)) (vmul (drop k l) (take k r))))"

definition triple_score :: "kbc_model \<Rightarrow> triple \<Rightarrow> real" where
  "triple_score m t =
     (case m of
        CP c \<Rightarrow> sum_list (vmul (vmul (cp_lhs c ! nat (fst t)) (cp_rel c ! nat (fst (snd t))))
                            (cp_rhs c ! nat (snd (snd t))))
      | ComplEx c \<Rightarrow> sum_list (row_product (cx_rank c) (cx_embeddings0 c ! nat (fst t))
                            (cx_embeddings1 c ! nat (fst (snd t))) (cx_embeddings0 c ! nat (snd (snd t)))))"

text \<open>The score of candidate \<open>j\<close> for a query: the entry of \<^verbatim>\<open>q @ rhs\<close> in its column.\<close>

definition candidate_score :: "kbc_model \<Rightarrow> triple \<Rightarrow> nat \<Rightarrow> real" where
  "candidate_score m t j = dot (query_vec m t) (candidates m ! j)"

text \<open>
  What the ranking loop must compute, one query at a time and without batches. A pass
  over the candidates \<open>lo, \<dots>, hi - 1\<close> gives every query its row of scores, the
  candidates of its current filter list overwritten, and appends the query's object to
  that list for the queries that follow.
\<close>

definition masked_row :: "kbc_model \<Rightarrow> triple \<Rightarrow> int set \<Rightarrow> nat \<Rightarrow> nat \<Rightarrow> real list" where
  "masked_row m t S lo hi =
     map (\<lambda>j. if int j \<in> S then - 1000000 else candidate_score m t j) [lo..<hi]"

fun masked_rows :: "kbc_model \<Rightarrow> nat \<Rightarrow> nat \<Rightarrow> filters \<Rightarrow> triple list \<Rightarrow> matrix \<times> filters" where
  "masked_rows m lo hi F [] = ([], F)"
| "masked_rows m lo hi F (t # ts) =
     (let fl = the (F (key t)) @ [obj t];
          r = masked_rows m lo hi (F(key t \<mapsto> fl)) ts
      in (masked_row m t (set fl) lo hi # fst r, snd r))"

definition pass_counts :: "kbc_model \<Rightarrow> nat \<Rightarrow> nat \<Rightarrow> filters \<Rightarrow> triple list \<Rightarrow> nat list" where
  "pass_counts m lo hi F ts = count_ge (fst (masked_rows m lo hi F ts)) (map (triple_score m) ts)"

text \<open>
  The filter entries and the queries that the ranking runs on without an exception:
  ids that index the tables, a filter list for every query's key, and filter entries
  that are candidate indices.
\<close>

definition queries_ok :: "kbc_model \<Rightarrow> filters \<Rightarrow> triple list \<Rightarrow> bool" where
  "queries_ok m F ts \<longleftrightarrow>
     (\<forall>t \<in> set ts. ids_ok m t \<and> F (key t) \<noteq> None
        \<and> (\<forall>x \<in> set (the (F (key t))). 0 \<le> x \<and> x < int (snd (snd (sizes m)))))"

text \<open>
  All the passes of a ranking with chunks of \<open>cs\<close> candidates, from candidate \<open>lo\<close> on:
  the counts of every pass, and the filter dictionary after the last one.
\<close>

function all_passes ::
  "kbc_model \<Rightarrow> nat \<Rightarrow> nat \<Rightarrow> filters \<Rightarrow> triple list \<Rightarrow> nat list list \<times> filters" where
  "all_passes m cs lo F ts =
     (if lo < snd (snd (sizes m)) \<and> 0 < cs
      then (let hi = min (snd (snd (sizes m))) (lo + cs);
                r = all_passes m cs (lo + cs) (snd (masked_rows m lo hi F ts)) ts
            in (pass_counts m lo hi F ts # fst r, snd r))
      else ([], F))"
  by pat_completeness auto
termination
  by (relation "measure (\<lambda>(m, cs, lo, F, ts). snd (snd (sizes m)) - lo)") auto

text \<open>The chunk size that \<^verbatim>\<open>get_ranking\<close> works with, and the number of its passes.\<close>

definition chunk_of :: "kbc_model \<Rightarrow> int \<Rightarrow> nat" where
  "chunk_of m chunk_size = (if chunk_size < 0 then snd (snd (sizes m)) else nat chunk_size)"

definition num_chunks :: "kbc_model \<Rightarrow> int \<Rightarrow> nat" where
  "num_chunks m chunk_size =
     (snd (snd (sizes m)) + chunk_of m chunk_size - 1) div chunk_of m chunk_size"

text \<open>The true objects of the queries with a given key, in the order of the queries.\<close>

definition objs :: "triple list \<Rightarrow> int \<times> int \<Rightarrow> int list" where
  "objs ts k = map obj (filter (\<lambda>t. key t = k) ts)"

text \<open>
  The number of candidates in \<open>lo, \<dots>, hi - 1\<close> that count against a query when the
  candidates in \<open>S\<close> are overwritten with the sentinel, and the number of candidates
  outside \<open>S\<close> that score at least as high as the true answer.
\<close>

definition filtered_count :: "kbc_model \<Rightarrow> triple \<Rightarrow> int set \<Rightarrow> nat \<Rightarrow> nat \<Rightarrow> nat" where
  "filtered_count m t S lo hi =
     length (filter (\<lambda>j. triple_score m t \<le> (if int j \<in> S then - 1000000 else candidate_score m t j))
               [lo..<hi])"

definition unfiltered_above :: "kbc_model \<Rightarrow> triple \<Rightarrow> int set \<Rightarrow> nat \<Rightarrow> nat \<Rightarrow> nat" where
  "unfiltered_above m t S lo hi =
     length (filter (\<lambda>j. int j \<notin> S \<and> triple_score m t \<le> candidate_score m t j) [lo..<hi])"

text \<open>
  A model for examples: one subject, one relation and three candidates of width 1, which
  score 1, 2 and 3 for the subject and relation 0.
\<close>

definition three_candidates :: kbc_model where
  "three_candidates =
     CP \<lparr>cp_sizes = (1, 1, 3), cp_rank = 1, cp_lhs = [[1]], cp_rel = [[1]], cp_rhs = [[1], [2], [3]]\<rparr>"

section \<open>Properties of the scoring core\<close>

lemma map2_map_map: "map2 h (map f xs) (map g xs) = map (\<lambda>x. h (f x) (g x)) xs"
  by (induction xs) auto

lemma sum_list_nth_lessThan: "sum_list xs = (\<Sum>k<length xs. xs ! k)"
  by (simp add: sum_list_sum_nth atLeast0LessThan)

lemma length_vmul [simp]: "length (vmul a b) = min (length a) (length b)"
  by (simp add: vmul_def)

lemma length_vadd [simp]: "length (vadd a b) = min (length a) (length b)"
  by (simp add: vadd_def)

lemma length_vsub [simp]: "length (vsub a b) = min (length a) (length b)"
  by (simp add: vsub_def)

lemma nth_vmul [simp]: "k < length a \<Longrightarrow> k < length b \<Longrightarrow> vmul a b ! k = a ! k * b ! k"
  by (simp add: vmul_def)

lemma nth_vadd [simp]: "k < length a \<Longrightarrow> k < length b \<Longrightarrow> vadd a b ! k = a ! k + b ! k"
  by (simp add: vadd_def)

lemma nth_vsub [simp]: "k < length a \<Longrightarrow> k < length b \<Longrightarrow> vsub a b ! k = a ! k - b ! k"
  by (simp add: vsub_def)

lemma sum_row_product:
  assumes "length l = 2 * n" "length r = 2 * n" "length o' = 2 * n"
  shows "sum_list (row_product n l r o') = complex_closed_form n l r o'"
proof -
  have len: "length (row_product n l r o') = n"
    using assms by (simp add: row_product_def)
  have "sum_list (row_product n l r o') = (\<Sum>k<n. row_product n l r o' ! k)"
    using sum_list_nth_lessThan [of "row_product n l r o'"] len by simp
  also have "\<dots> = complex_closed_form n l r o'"
    unfolding complex_closed_form_def
    by (rule sum.cong) (use assms in \<open>simp_all add: row_product_def\<close>)
  finally show ?thesis .
qed

lemma sum_cp_row:
  assumes "length l = d" "length r = d" "length o' = d"
  shows "sum_list (vmul (vmul l r) o') = cp_closed_form l r o'"
proof -
  have "sum_list (vmul (vmul l r) o') = (\<Sum>k<d. vmul (vmul l r) o' ! k)"
    using sum_list_nth_lessThan [of "vmul (vmul l r) o'"] assms by simp
  also have "\<dots> = cp_closed_form l r o'"
    unfolding cp_closed_form_def using assms by (intro sum.cong) simp_all
  finally show ?thesis .
qed

lemma complex_product_rows:
  "complex_product n (map f x) (map g x) (map h x) = map (\<lambda>t. row_product n (f t) (g t) (h t)) x"
  by (simp add: complex_product_def Let_def cols_to_def cols_from_def madd_def mmul_def msub_def
      map2_map_map row_product_def comp_def)

lemma embedding_ok:
  "\<forall>i \<in> set ids. in_table W i \<Longrightarrow> embedding W ids = Inr (map (\<lambda>i. W ! nat i) ids)"
  by (simp add: embedding_def in_table_def)

lemma wf_table_row: "wf_table n d W \<Longrightarrow> in_table W i \<Longrightarrow> length (W ! nat i) = d"
proof -
  assume "wf_table n d W" "in_table W i"
  then have "nat i < length W" "\<forall>row \<in> set W. length row = d"
    by (auto simp: wf_table_def in_table_def)
  then show ?thesis using nth_mem by blast
qed

text \<open>
  Claim C8. For every batch of triples whose ids index the tables of a ComplEx model,
  \<^verbatim>\<open>score\<close> returns for each triple the closed form: with every embedding split into
  a real half and an imaginary half of \<open>rank\<close> columns each, the sum over the dimensions
  of \<open>(lhs_re * rel_re - lhs_im * rel_im) * rhs_re + (lhs_re * rel_im + lhs_im * rel_re) * rhs_im\<close>.
  \<^verbatim>\<open>score_emb\<close> on one row of embeddings returns the same closed form.
\<close>

theorem complex_score_closed_form:
  assumes wf: "wf_complex m"
    and ids: "\<forall>t \<in> set x. in_table (cx_embeddings0 m) (fst t) \<and> in_table (cx_embeddings1 m) (fst (snd t))
                \<and> in_table (cx_embeddings0 m) (snd (snd t))"
    and len: "length l = 2 * cx_rank m" "length r = 2 * cx_rank m" "length ob = 2 * cx_rank m"
  shows "complex_score m x =
           Inr (map (\<lambda>t. complex_closed_form (cx_rank m) (cx_embeddings0 m ! nat (fst t))
                          (cx_embeddings1 m ! nat (fst (snd t))) (cx_embeddings0 m ! nat (snd (snd t)))) x)
         \<and> complex_score_emb m [l] [r] [ob] = Some (complex_closed_form (cx_rank m) l r ob)"
proof
  have e1: "embedding (cx_embeddings0 m) (map fst x) = Inr (map (\<lambda>i. cx_embeddings0 m ! nat i) (map fst x))"
    by (rule embedding_ok) (use ids in auto)
  have e2: "embedding (cx_embeddings1 m) (map (\<lambda>t. fst (snd t)) x)
              = Inr (map (\<lambda>i. cx_embeddings1 m ! nat i) (map (\<lambda>t. fst (snd t)) x))"
    by (rule embedding_ok) (use ids in auto)
  have e3: "embedding (cx_embeddings0 m) (map (\<lambda>t. snd (snd t)) x)
              = Inr (map (\<lambda>i. cx_embeddings0 m ! nat i) (map (\<lambda>t. snd (snd t)) x))"
    by (rule embedding_ok) (use ids in auto)
  have rows: "\<And>t. t \<in> set x \<Longrightarrow>
      sum_list (row_product (cx_rank m) (cx_embeddings0 m ! nat (fst t))
                  (cx_embeddings1 m ! nat (fst (snd t))) (cx_embeddings0 m ! nat (snd (snd t))))
      = complex_closed_form (cx_rank m) (cx_embeddings0 m ! nat (fst t))
                  (cx_embeddings1 m ! nat (fst (snd t))) (cx_embeddings0 m ! nat (snd (snd t)))"
    using wf ids by (intro sum_row_product) (auto simp: wf_complex_def intro: wf_table_row)
  show "complex_score m x =
           Inr (map (\<lambda>t. complex_closed_form (cx_rank m) (cx_embeddings0 m ! nat (fst t))
                          (cx_embeddings1 m ! nat (fst (snd t))) (cx_embeddings0 m ! nat (snd (snd t)))) x)"
    unfolding complex_score_def e1 e2 e3
    by (simp add: map_map comp_def complex_product_rows sum_dim1_def rows)
  have "complex_product (cx_rank m) [l] [r] [ob] = [row_product (cx_rank m) l r ob]"
    using complex_product_rows [of "cx_rank m" "\<lambda>_. l" "[()]" "\<lambda>_. r" "\<lambda>_. ob"] by simp
  then show "complex_score_emb m [l] [r] [ob] = Some (complex_closed_form (cx_rank m) l r ob)"
    by (simp add: complex_score_emb_def sum_dim1_def mean_def sum_row_product len)
qed

text \<open>
  The scenario of the specification: subject and object embedding \<open>(1, 0, 1, 0)\<close>,
  relation embedding \<open>(1, 0, 0, 0)\<close>, rank 2. The score is 2.
\<close>

theorem complex_score_closed_form_witness:
  "wf_complex \<lparr>cx_sizes = (1, 1, 1), cx_rank = 2, cx_embeddings0 = [[1, 0, 1, 0]],
         cx_embeddings1 = [[1, 0, 0, 0]]\<rparr>
   \<and> complex_score \<lparr>cx_sizes = (1, 1, 1), cx_rank = 2, cx_embeddings0 = [[1, 0, 1, 0]],
         cx_embeddings1 = [[1, 0, 0, 0]]\<rparr> [(0, 0, 0)] = Inr [2]
   \<and> complex_score_emb \<lparr>cx_sizes = (1, 1, 1), cx_rank = 2, cx_embeddings0 = [[1, 0, 1, 0]],
         cx_embeddings1 = [[1, 0, 0, 0]]\<rparr> [[1, 0, 1, 0]] [[1, 0, 0, 0]] [[1, 0, 1, 0]] = Some 2"
  using complex_score_closed_form [of "\<lparr>cx_sizes = (1, 1, 1), cx_rank = 2, cx_embeddings0 = [[1, 0, 1, 0]],
         cx_embeddings1 = [[1, 0, 0, 0]]\<rparr>" "[(0, 0, 0)]" "[1, 0, 1, 0]" "[1, 0, 0, 0]" "[1, 0, 1, 0]"]
  by (simp add: wf_complex_def wf_table_def in_table_def complex_closed_form_def lessThan_Suc numeral_2_eq_2)

lemma mmul_nth: "i < length A \<Longrightarrow> i < length B \<Longrightarrow> mmul A B ! i = vmul (A ! i) (B ! i)"
  by (simp add: mmul_def)

lemma length_mmul [simp]: "length (mmul A B) = min (length A) (length B)"
  by (simp add: mmul_def)

text \<open>
  Claim C4, as amended. \<^verbatim>\<open>CP.score_emb\<close> on a batch that is not empty, its three
  matrices of one shape, returns one scalar for the whole batch: the mean over the rows
  of the sum over the dimensions of \<open>subject * relation * object\<close>.
\<close>

theorem cp_score_emb_is_batch_mean:
  assumes ne: "lhs \<noteq> []"
    and len: "length rel = length lhs" "length rhs = length lhs"
    and width: "\<forall>i<length lhs. length (rel ! i) = length (lhs ! i) \<and> length (rhs ! i) = length (lhs ! i)"
  shows "cp_score_emb lhs rel rhs =
           Some ((\<Sum>i<length lhs. cp_closed_form (lhs ! i) (rel ! i) (rhs ! i)) / real (length lhs))"
proof -
  let ?M = "mmul (mmul lhs rel) rhs"
  have lenM: "length ?M = length lhs" using len by simp
  have "sum_list (sum_dim1 ?M) = (\<Sum>i<length lhs. sum_dim1 ?M ! i)"
    using sum_list_nth_lessThan [of "sum_dim1 ?M"] lenM by (simp add: sum_dim1_def)
  also have "\<dots> = (\<Sum>i<length lhs. cp_closed_form (lhs ! i) (rel ! i) (rhs ! i))"
  proof (rule sum.cong)
    fix i assume "i \<in> {..<length lhs}"
    then have i: "i < length lhs" by simp
    then have "sum_dim1 ?M ! i = sum_list (vmul (vmul (lhs ! i) (rel ! i)) (rhs ! i))"
      using len by (simp add: sum_dim1_def mmul_nth)
    also have "\<dots> = cp_closed_form (lhs ! i) (rel ! i) (rhs ! i)"
      using width i by (intro sum_cp_row) auto
    finally show "sum_dim1 ?M ! i = cp_closed_form (lhs ! i) (rel ! i) (rhs ! i)" .
  qed simp
  finally have "sum_list (sum_dim1 ?M) = (\<Sum>i<length lhs. cp_closed_form (lhs ! i) (rel ! i) (rhs ! i))" .
  moreover have l2: "length (sum_dim1 ?M) = length lhs"
    using len by (simp add: sum_dim1_def)
  moreover from l2 ne have "sum_dim1 ?M \<noteq> []"
    by (cases "sum_dim1 ?M") auto
  ultimately show ?thesis
    by (simp add: cp_score_emb_def mean_def)
qed

text \<open>A batch of two rows with the row scores 1 and 3: the result is their mean.\<close>

theorem cp_score_emb_is_batch_mean_witness:
  "cp_score_emb [[1], [3]] [[1], [1]] [[1], [1]] = Some 2"
  using cp_score_emb_is_batch_mean [of "[[1], [3]]" "[[1], [1]]" "[[1], [1]]"]
  by (simp add: cp_closed_form_def lessThan_Suc numeral_2_eq_2 less_Suc_eq)

text \<open>
  Claim C4 as stated fails on that batch: the scalar returned is not the score of
  each row.
\<close>

theorem cp_score_emb_not_per_row:
  "\<not> (\<forall>i<2. cp_score_emb [[1], [3]] [[1], [1]] [[1], [1]]
                = Some (cp_closed_form ([[1], [3]] ! i) ([[1], [1]] ! i) ([[1], [1]] ! i)))"
proof
  assume "\<forall>i<2. cp_score_emb [[1], [3]] [[1], [1]] [[1], [1]]
                = Some (cp_closed_form ([[1], [3]] ! i) ([[1], [1]] ! i) ([[1], [1]] ! i))"
  then have "cp_score_emb [[1], [3]] [[1], [1]] [[1], [1]]
                = Some (cp_closed_form ([[1], [3]] ! 0) ([[1], [1]] ! 0) ([[1], [1]] ! 0))"
    by (rule allE [where x = 0]) simp
  then show False
    by (simp add: cp_score_emb_def mean_def sum_dim1_def mmul_def vmul_def cp_closed_form_def)
qed

section \<open>Properties of the nearest-neighbour matcher\<close>

lemma argmin_less: "argmin xs = Some j \<Longrightarrow> j < length xs"
  by (induction xs arbitrary: j) (auto split: option.splits if_splits)

lemma argmin_None: "argmin xs = None \<longleftrightarrow> xs = []"
  by (cases xs) (auto split: option.splits)

lemma argmin_least:
  "argmin xs = Some j \<Longrightarrow> (\<forall>k<length xs. xs ! j \<le> xs ! k) \<and> (\<forall>k<j. xs ! j < xs ! k)"
proof (induction xs arbitrary: j)
  case Nil
  then show ?case by simp
next
  case (Cons x xs)
  show ?case
  proof (cases "argmin xs")
    case None
    then have "xs = []" by (simp add: argmin_None)
    with Cons.prems show ?thesis by simp
  next
    case (Some i)
    note IH = Cons.IH [OF Some]
    show ?thesis
    proof (cases "xs ! i < x")
      case True
      with Some Cons.prems have j: "j = Suc i" by simp
      show ?thesis unfolding j using IH True
        by (auto simp: nth_Cons less_Suc_eq_0_disj split: nat.splits)
    next
      case False
      with Some Cons.prems have j: "j = 0" by simp
      have "\<forall>k<length xs. x \<le> xs ! k"
        using IH False by (meson le_less_linear order_trans less_imp_le not_less)
      then show ?thesis unfolding j
        by (auto simp: nth_Cons split: nat.splits)
    qed
  qed
qed

lemma broadcast_same: "length a = length b \<Longrightarrow> broadcast a b = Some (a, b)"
  by (simp add: broadcast_def)

lemma str_in_cosine_cos: "str_in ''cosine'' s \<Longrightarrow> str_in ''cos'' s"
proof (induction s)
  case Nil
  then show ?case by simp
next
  case (Cons c cs)
  have l: "length ''cos'' = 3" by simp
  show ?case
  proof (cases "take 6 (c # cs) = ''cosine''")
    case True
    have "take 3 (c # cs) = take 3 (take 6 (c # cs))" by (simp add: min_def)
    also have "\<dots> = ''cos''" unfolding True by simp
    finally have "take (length ''cos'') (c # cs) = ''cos''" by (simp only: l)
    then show ?thesis by (simp only: str_in.simps simp_thms)
  next
    case False
    have l6: "length ''cosine'' = 6" by simp
    from Cons.prems have "take (length ''cosine'') (c # cs) = ''cosine'' \<or> str_in ''cosine'' cs"
      by (simp only: str_in.simps)
    then have "take 6 (c # cs) = ''cosine'' \<or> str_in ''cosine'' cs"
      by (simp only: l6)
    with False have "str_in ''cosine'' cs" by blast
    then have "str_in ''cos'' cs" by (rule Cons.IH)
    then show ?thesis by (simp only: str_in.simps simp_thms)
  qed
qed

lemma cosine_similarity_same_width:
  assumes "\<forall>y \<in> set ys. length y = length x"
  shows "cosine_similarity x ys =
           Some (map (\<lambda>y. dot x y / (max (sqrt (sq_norm x)) eps * max (sqrt (sq_norm y)) eps)) ys)"
proof -
  have b: "\<And>y. y \<in> set ys \<Longrightarrow> broadcast x y = Some (x, y)"
    using assms by (simp add: broadcast_same)
  then have "list_all (\<lambda>y. broadcast x y \<noteq> None) ys"
    by (simp add: list_all_iff)
  moreover have "map (\<lambda>y. case the (broadcast x y) of
                     (a, b) \<Rightarrow> dot a b / (max (sqrt (sq_norm a)) eps * max (sqrt (sq_norm b)) eps)) ys
                 = map (\<lambda>y. dot x y / (max (sqrt (sq_norm x)) eps * max (sqrt (sq_norm y)) eps)) ys"
    by (intro map_cong refl) (simp add: b)
  ultimately show ?thesis
    by (simp add: cosine_similarity_def)
qed

text \<open>
  Claim C5. Under the cosine metric, for a query and a non-empty candidate matrix of one
  width, the matcher returns the first index at which the cosine similarity is least:
  no candidate is less similar to the query than the one returned.
\<close>

theorem closest_cosine_is_least_similar:
  assumes "\<not> str_in ''euclid'' (lower metric)" and "\<not> str_in ''l2'' (lower metric)"
    and "str_in ''cosine'' (lower metric)"
    and ne: "ys \<noteq> []" and width: "\<forall>y \<in> set ys. length y = length x"
  shows "\<exists>j sims. closest_matrix [x] ys metric method = Some (Listed [Some (j, ys ! j)])
           \<and> cosine_similarity x ys = Some sims \<and> j < length ys
           \<and> (\<forall>k<length ys. sims ! j \<le> sims ! k)"
proof -
  let ?sims = "map (\<lambda>y. dot x y / (max (sqrt (sq_norm x)) eps * max (sqrt (sq_norm y)) eps)) ys"
  have cs: "cosine_similarity x ys = Some ?sims"
    by (rule cosine_similarity_same_width [OF width])
  from ne have "argmin ?sims \<noteq> None" by (simp add: argmin_None)
  then obtain j where j: "argmin ?sims = Some j" by auto
  have jl: "j < length ys" using argmin_less [OF j] by simp
  have least: "\<forall>k<length ys. ?sims ! j \<le> ?sims ! k"
    using argmin_least [OF j] by simp
  have "closest_vector x ys metric = Some (j, ys ! j)"
    using assms(1,2) str_in_cosine_cos [OF assms(3)] by (simp add: closest_vector_def cs j)
  then have "closest_matrix [x] ys metric method = Some (Listed [Some (j, ys ! j)])"
    using assms(1-3) by (simp add: closest_matrix_def)
  with cs jl least show ?thesis by blast
qed

text \<open>
  The query \<open>(1, 0)\<close> with the candidates \<open>(1, 0)\<close> and \<open>(-1, 0)\<close>: the similarities are
  1 and -1, and the matcher returns index 1, the opposite vector.
\<close>

theorem closest_cosine_is_least_similar_witness:
  "closest_matrix [[1, 0]] [[1, 0], [- 1, 0]] ''cosine'' ''fast'' = Some (Listed [Some (1, [- 1, 0])])
   \<and> cosine_similarity [1, 0] [[1, 0], [- 1, 0]] = Some [1, - 1]"
proof -
  have h: "\<not> str_in ''euclid'' (lower ''cosine'')" "\<not> str_in ''l2'' (lower ''cosine'')"
    "str_in ''cosine'' (lower ''cosine'')"
    by code_simp+
  have cs: "cosine_similarity [1, 0] [[1, 0], [- 1, 0]] = Some [1, - 1]"
    by (simp add: cosine_similarity_def broadcast_def dot_def vmul_def sq_norm_def eps_def)
  obtain j sims where
    r: "closest_matrix [[1, 0]] [[1, 0], [- 1, 0]] ''cosine'' ''fast''
          = Some (Listed [Some (j, [[1, 0], [- 1, 0]] ! j)])"
    and s: "cosine_similarity [1, 0] [[1, 0], [- 1, 0]] = Some sims"
    and jl: "j < length [[1, 0], [- 1, 0 :: real]]"
    and least: "\<forall>k<length [[1, 0], [- 1, 0 :: real]]. sims ! j \<le> sims ! k"
    using closest_cosine_is_least_similar [OF h, of "[[1, 0], [- 1, 0]]" "[1, 0]" "''fast''"]
    by auto
  from s cs have sims: "sims = [1, - 1]" by simp
  from jl have "j = 0 \<or> j = 1" by auto
  moreover from least have "sims ! j \<le> sims ! 1" by simp
  ultimately have "j = 1" unfolding sims by auto
  with r cs show ?thesis by simp
qed

text \<open>
  Claim C6. A metric that names neither the Euclidean nor the cosine branch makes
  \<^verbatim>\<open>__closest_matrix__\<close> return its initial empty list, without a message; a strategy
  that names neither \<^verbatim>\<open>fast\<close> nor \<^verbatim>\<open>stable\<close> under the Euclidean metric is printed,
  raised, caught and answered with \<^verbatim>\<open>None\<close>.
\<close>

theorem closest_matrix_unrecognised:
  "(\<not> str_in ''euclid'' (lower metric) \<and> \<not> str_in ''l2'' (lower metric)
      \<and> \<not> str_in ''cosine'' (lower metric)
     \<longrightarrow> closest_matrix xs ys metric method = Some (Listed []))
   \<and> ((str_in ''euclid'' (lower metric) \<or> str_in ''l2'' (lower metric))
      \<and> \<not> str_in ''fast'' (lower method) \<and> \<not> str_in ''stable'' (lower method)
     \<longrightarrow> closest_matrix xs ys metric method = None)"
  by (simp add: closest_matrix_def)

text \<open>The metric \<^verbatim>\<open>manhattan\<close>, and the strategy \<^verbatim>\<open>slow\<close> under the metric \<^verbatim>\<open>l2\<close>.\<close>

theorem closest_matrix_unrecognised_witness:
  "closest_matrix [[0, 0]] [[1, 0], [0, 1]] ''manhattan'' ''fast'' = Some (Listed [])
   \<and> closest_matrix [[0, 0]] [[1, 0], [0, 1]] ''l2'' ''slow'' = None"
proof -
  have h1: "\<not> str_in ''euclid'' (lower ''manhattan'') \<and> \<not> str_in ''l2'' (lower ''manhattan'')
      \<and> \<not> str_in ''cosine'' (lower ''manhattan'')"
    by code_simp
  have h2: "(str_in ''euclid'' (lower ''l2'') \<or> str_in ''l2'' (lower ''l2''))
      \<and> \<not> str_in ''fast'' (lower ''slow'') \<and> \<not> str_in ''stable'' (lower ''slow'')"
    by code_simp
  show ?thesis
    using closest_matrix_unrecognised [of "''manhattan''" "[[0, 0]]" "[[1, 0], [0, 1]]" "''fast''"]
      closest_matrix_unrecognised [of "''l2''" "[[0, 0]]" "[[1, 0], [0, 1]]" "''slow''"] h1 h2
    by blast
qed

section \<open>Properties of the inverse query solver\<close>

lemma pgd_loop_Inr:
  "pgd_loop body M i s = Inr (i', s') \<Longrightarrow>
     \<exists>n. i' = i + int n \<and> (n = 0 \<or> i + int n \<le> M + 1) \<and> pgd_unroll body n s = Inr s'
       \<and> (\<forall>k<n. \<exists>sk. pgd_unroll body k s = Inr sk \<and> improving (prev_loss sk) (loss sk))
       \<and> (i' \<le> M \<longrightarrow> \<not> improving (prev_loss s') (loss s'))"
proof (induction body M i s rule: pgd_loop.induct)
  case (1 body M i s)
  show ?case
  proof (cases "i \<le> M \<and> improving (prev_loss s) (loss s)")
    case False
    with "1.prems" have "i' = i" "s' = s" by (auto simp: pgd_loop.simps [of body M i s])
    with False show ?thesis by (intro exI [of _ 0]) auto
  next
    case True
    with "1.prems" obtain s1 where b: "body s = Inr s1"
      and r: "pgd_loop body M (i + 1) s1 = Inr (i', s')"
      by (auto simp: pgd_loop.simps [of body M i s] split: sum.splits)
    from "1.IH" [OF True b r] obtain n where n: "i' = i + 1 + int n"
      "n = 0 \<or> i + 1 + int n \<le> M + 1" "pgd_unroll body n s1 = Inr s'"
      "\<forall>k<n. \<exists>sk. pgd_unroll body k s1 = Inr sk \<and> improving (prev_loss sk) (loss sk)"
      "i' \<le> M \<longrightarrow> \<not> improving (prev_loss s') (loss s')"
      by blast
    have "\<forall>k<Suc n. \<exists>sk. pgd_unroll body k s = Inr sk \<and> improving (prev_loss sk) (loss sk)"
    proof (intro allI impI)
      fix k assume "k < Suc n"
      show "\<exists>sk. pgd_unroll body k s = Inr sk \<and> improving (prev_loss sk) (loss sk)"
      proof (cases k)
        case 0
        with True show ?thesis by simp
      next
        case (Suc k')
        with \<open>k < Suc n\<close> n(4) b show ?thesis by simp
      qed
    qed
    with n b True show ?thesis
      by (intro exI [of _ "Suc n"]) auto
  qed
qed

lemma pgd_loop_Inl:
  "pgd_loop body M i s = Inl e \<Longrightarrow>
     \<exists>n. i + int n \<le> M \<and> pgd_unroll body (Suc n) s = Inl e
       \<and> (\<forall>k\<le>n. \<exists>sk. pgd_unroll body k s = Inr sk \<and> improving (prev_loss sk) (loss sk))"
proof (induction body M i s rule: pgd_loop.induct)
  case (1 body M i s)
  from "1.prems" have c: "i \<le> M \<and> improving (prev_loss s) (loss s)"
    by (auto simp: pgd_loop.simps [of body M i s] split: if_splits)
  show ?case
  proof (cases "body s")
    case (Inl e')
    with c "1.prems" have "e' = e" by (simp add: pgd_loop.simps [of body M i s])
    with Inl c show ?thesis by (intro exI [of _ 0]) auto
  next
    case (Inr s1)
    with c "1.prems" have r: "pgd_loop body M (i + 1) s1 = Inl e"
      by (simp add: pgd_loop.simps [of body M i s])
    from "1.IH" [OF c Inr r] obtain n where n: "i + 1 + int n \<le> M"
      "pgd_unroll body (Suc n) s1 = Inl e"
      "\<forall>k\<le>n. \<exists>sk. pgd_unroll body k s1 = Inr sk \<and> improving (prev_loss sk) (loss sk)"
      by blast
    have "\<forall>k\<le>Suc n. \<exists>sk. pgd_unroll body k s = Inr sk \<and> improving (prev_loss sk) (loss sk)"
    proof (intro allI impI)
      fix k assume "k \<le> Suc n"
      show "\<exists>sk. pgd_unroll body k s = Inr sk \<and> improving (prev_loss sk) (loss sk)"
      proof (cases k)
        case 0
        with c show ?thesis by simp
      next
        case (Suc k')
        with \<open>k \<le> Suc n\<close> n(3) Inr show ?thesis by simp
      qed
    qed
    with n Inr show ?thesis
      by (intro exI [of _ "Suc n"]) auto
  qed
qed

lemma not_improving:
  "\<not> improving (Some p) (Some l) \<longleftrightarrow> p - l \<le> 1 / 10 ^ 20"
  by (auto simp: improving_def)

text \<open>
  Claim C9. The optimisation loop returns after \<open>n\<close> runs of its body, \<open>n\<close> at most
  \<^verbatim>\<open>max_steps\<close>: \<open>n\<close> is the first count at which \<^verbatim>\<open>max_steps\<close> is reached or the
  last improvement \<open>prev_loss - loss\<close> is not above \<open>1e-20\<close>. It returns with fewer than
  \<^verbatim>\<open>max_steps\<close> runs only when that improvement is at most \<open>1e-20\<close>, and running all
  \<^verbatim>\<open>max_steps\<close> is a normal return. The only other outcome is an exception of the
  body itself, within the first \<^verbatim>\<open>max_steps\<close> runs.
\<close>

theorem pgd_optimise_stops_within_max_steps:
  fixes m regularizer opt_step lhs pred guess0 and opt0 :: 'o
  defines "body \<equiv> pgd_body m regularizer opt_step lhs pred"
    and "s0 \<equiv> \<lparr>prev_loss = Some 1000, loss = Some 999, obj_guess = guess0, optimizer = opt0\<rparr>"
  shows "(\<exists>n s. pgd_optimise m regularizer opt_step lhs pred guess0 opt0 max_steps
                  = Inr (1 + int n \<noteq> max_steps, 1 + int n, s)
            \<and> int n \<le> max 0 max_steps
            \<and> pgd_unroll body n s0 = Inr s
            \<and> (\<forall>k<n. \<exists>sk. pgd_unroll body k s0 = Inr sk \<and> improving (prev_loss sk) (loss sk))
            \<and> (int n < max_steps \<longrightarrow>
                 \<not> improving (prev_loss s) (loss s)
                 \<and> (\<forall>p l. prev_loss s = Some p \<and> loss s = Some l \<longrightarrow> p - l \<le> 1 / 10 ^ 20)))
         \<or> (\<exists>n e. pgd_optimise m regularizer opt_step lhs pred guess0 opt0 max_steps = Inl e
            \<and> int n < max_steps
            \<and> pgd_unroll body (Suc n) s0 = Inl e
            \<and> (\<forall>k\<le>n. \<exists>sk. pgd_unroll body k s0 = Inr sk \<and> improving (prev_loss sk) (loss sk)))"
proof (cases "pgd_loop body max_steps 1 s0")
  case (Inl e)
  from pgd_loop_Inl [OF Inl] obtain n where n: "1 + int n \<le> max_steps"
    "pgd_unroll body (Suc n) s0 = Inl e"
    "\<forall>k\<le>n. \<exists>sk. pgd_unroll body k s0 = Inr sk \<and> improving (prev_loss sk) (loss sk)"
    by blast
  have "pgd_optimise m regularizer opt_step lhs pred guess0 opt0 max_steps = Inl e"
    using Inl by (simp add: pgd_optimise_def body_def s0_def)
  with n show ?thesis by (intro disjI2 exI [of _ n] exI [of _ e]) auto
next
  case (Inr r)
  obtain i s where r: "r = (i, s)" by (cases r)
  from pgd_loop_Inr [OF Inr [unfolded r]] obtain n where n: "i = 1 + int n"
    "n = 0 \<or> 1 + int n \<le> max_steps + 1" "pgd_unroll body n s0 = Inr s"
    "\<forall>k<n. \<exists>sk. pgd_unroll body k s0 = Inr sk \<and> improving (prev_loss sk) (loss sk)"
    "i \<le> max_steps \<longrightarrow> \<not> improving (prev_loss s) (loss s)"
    by blast
  have res: "pgd_optimise m regularizer opt_step lhs pred guess0 opt0 max_steps
          = Inr (1 + int n \<noteq> max_steps, 1 + int n, s)"
    using Inr r n(1) by (simp add: pgd_optimise_def body_def s0_def)
  have bound: "int n \<le> max 0 max_steps" using n(2) by auto
  have early: "int n < max_steps \<longrightarrow>
                 \<not> improving (prev_loss s) (loss s)
                 \<and> (\<forall>p l. prev_loss s = Some p \<and> loss s = Some l \<longrightarrow> p - l \<le> 1 / 10 ^ 20)"
    using n(1,5) not_improving by auto
  from res bound n(3,4) early show ?thesis
    by (intro disjI1 exI [of _ n] exI [of _ s]) blast
qed

text \<open>
  A model with one embedding of width 1, no regulariser and an optimiser that leaves the
  guess where it is: the loss is \<open>-2\<close> at every run, so the second run shows no
  improvement and the loop returns with the counter at 3, before the five runs allowed.
\<close>

theorem pgd_optimise_stops_within_max_steps_witness:
  "pgd_optimise (CP \<lparr>cp_sizes = (1, 1, 1), cp_rank = 1, cp_lhs = [[1]], cp_rel = [[1]], cp_rhs = [[1]]\<rparr>)
     (\<lambda>_. 0) (\<lambda>loss_at st. Inr st) [[1]] [[1]] [[2]] () 5
     = Inr (True, 3, \<lparr>prev_loss = Some (- 2), loss = Some (- 2), obj_guess = [[2]], optimizer = ()\<rparr>)
   \<and> \<not> improving (Some (- 2)) (Some (- 2))"
proof -
  let ?m = "CP \<lparr>cp_sizes = (1, 1, 1), cp_rank = 1, cp_lhs = [[1]], cp_rel = [[1]], cp_rhs = [[1]]\<rparr>"
  let ?opt = "\<lambda>(loss_at :: matrix \<Rightarrow> real option) (st :: matrix \<times> unit). (Inr st :: error + matrix \<times> unit)"
  have ev: "pgd_optimise ?m (\<lambda>_. 0) ?opt [[1]] [[1]] [[2]] () 5
     = Inr (True, 3, \<lparr>prev_loss = Some (- 2), loss = Some (- 2), obj_guess = [[2]], optimizer = ()\<rparr>)"
    by (simp add: pgd_optimise_def pgd_loop.simps pgd_body_def improving_def score_emb_def
        cp_score_emb_def mean_def sum_dim1_def mmul_def vmul_def)
  from pgd_optimise_stops_within_max_steps [of ?m "\<lambda>_. 0" ?opt "[[1]]" "[[1]]" "[[2]]" "()" 5]
  have "\<not> improving (Some (- 2)) (Some (- 2))"
    unfolding ev by auto
  with ev show ?thesis by simp
qed

section \<open>Properties of the filtered ranking\<close>

lemma embedding_map:
  "\<forall>t \<in> set x. in_table W (f t) \<Longrightarrow> embedding W (map f x) = Inr (map (\<lambda>t. W ! nat (f t)) x)"
  using embedding_ok [of "map f x" W] by (simp add: comp_def)

lemma get_queries_rows:
  assumes "\<forall>t \<in> set qs. ids_ok m t"
  shows "get_queries m qs = Inr (map (query_vec m) qs)"
proof (cases m)
  case (CP c)
  have "embedding (cp_lhs c) (map fst qs) = Inr (map (\<lambda>t. cp_lhs c ! nat (fst t)) qs)"
    "embedding (cp_rel c) (map (\<lambda>t. fst (snd t)) qs) = Inr (map (\<lambda>t. cp_rel c ! nat (fst (snd t))) qs)"
    using assms CP by (auto intro!: embedding_map simp: ids_ok_def)
  then show ?thesis
    using CP by (simp add: get_queries_def mmul_def map2_map_map query_vec_def)
next
  case (ComplEx c)
  have "embedding (cx_embeddings0 c) (map fst qs) = Inr (map (\<lambda>t. cx_embeddings0 c ! nat (fst t)) qs)"
    "embedding (cx_embeddings1 c) (map (\<lambda>t. fst (snd t)) qs)
       = Inr (map (\<lambda>t. cx_embeddings1 c ! nat (fst (snd t))) qs)"
    using assms ComplEx by (auto intro!: embedding_map simp: ids_ok_def)
  then show ?thesis
    using ComplEx
    by (simp add: get_queries_def mmul_def madd_def msub_def cat1_def cols_to_def cols_from_def
        map2_map_map query_vec_def Let_def comp_def)
qed

lemma score_rows:
  assumes "\<forall>t \<in> set qs. ids_ok m t"
  shows "score m qs = Inr (map (triple_score m) qs)"
proof (cases m)
  case (CP c)
  have "embedding (cp_lhs c) (map fst qs) = Inr (map (\<lambda>t. cp_lhs c ! nat (fst t)) qs)"
    "embedding (cp_rel c) (map (\<lambda>t. fst (snd t)) qs) = Inr (map (\<lambda>t. cp_rel c ! nat (fst (snd t))) qs)"
    "embedding (cp_rhs c) (map (\<lambda>t. snd (snd t)) qs) = Inr (map (\<lambda>t. cp_rhs c ! nat (snd (snd t))) qs)"
    using assms CP by (auto intro!: embedding_map simp: ids_ok_def)
  then show ?thesis
    using CP by (simp add: score_def cp_score_def mmul_def map2_map_map triple_score_def sum_dim1_def comp_def)
next
  case (ComplEx c)
  have "embedding (cx_embeddings0 c) (map fst qs) = Inr (map (\<lambda>t. cx_embeddings0 c ! nat (fst t)) qs)"
    "embedding (cx_embeddings1 c) (map (\<lambda>t. fst (snd t)) qs)
       = Inr (map (\<lambda>t. cx_embeddings1 c ! nat (fst (snd t))) qs)"
    "embedding (cx_embeddings0 c) (map (\<lambda>t. snd (snd t)) qs)
       = Inr (map (\<lambda>t. cx_embeddings0 c ! nat (snd (snd t))) qs)"
    using assms ComplEx by (auto intro!: embedding_map simp: ids_ok_def)
  then show ?thesis
    using ComplEx
    by (simp add: score_def complex_score_def complex_product_rows triple_score_def sum_dim1_def comp_def)
qed

lemma fold_update_nth:
  "\<forall>p \<in> set ps. p < length row \<Longrightarrow> j < length row \<Longrightarrow>
     fold (\<lambda>p r. r[p := v]) ps row ! j = (if j \<in> set ps then v else row ! j)"
  by (induction ps arbitrary: row) (auto simp: nth_list_update)

lemma fold_update_length: "length (fold (\<lambda>p r. r[p := v]) ps row) = length row"
  by (induction ps arbitrary: row) auto

lemma index_fill_nonneg:
  assumes "\<forall>x \<in> set idxs. 0 \<le> x \<and> x < int (length row)"
  shows "index_fill row idxs
           = Inr (map (\<lambda>p. if int p \<in> set idxs then - 1000000 else row ! p) [0..<length row])"
proof -
  have f: "fold (\<lambda>x r. r[nat (if x < 0 then x + int (length row) else x) := - 1000000]) idxs row
           = fold (\<lambda>p r. r[p := - 1000000]) (map nat idxs) row"
  proof -
    have "fold (\<lambda>x r. r[nat (if x < 0 then x + int (length row) else x) := - 1000000]) idxs row
          = fold (\<lambda>x r. r[nat x := - 1000000]) idxs row"
      by (rule fold_cong) (use assms in auto)
    then show ?thesis by (simp add: fold_map comp_def)
  qed
  have "fold (\<lambda>p r. r[p := - 1000000]) (map nat idxs) row
        = map (\<lambda>p. if int p \<in> set idxs then - 1000000 else row ! p) [0..<length row]"
  proof (rule nth_equalityI)
    show "length (fold (\<lambda>p r. r[p := - 1000000]) (map nat idxs) row)
          = length (map (\<lambda>p. if int p \<in> set idxs then - 1000000 else row ! p) [0..<length row])"
      by (simp add: fold_update_length)
  next
    fix j assume "j < length (fold (\<lambda>p r. r[p := - 1000000]) (map nat idxs) row)"
    then have j: "j < length row" by (simp add: fold_update_length)
    have m: "j \<in> set (map nat idxs) \<longleftrightarrow> int j \<in> set idxs"
      using assms by (force simp: image_iff)
    have "\<forall>p \<in> set (map nat idxs). p < length row" using assms by auto
    from fold_update_nth [OF this j] m j
    show "fold (\<lambda>p r. r[p := - 1000000]) (map nat idxs) row ! j
          = map (\<lambda>p. if int p \<in> set idxs then - 1000000 else row ! p) [0..<length row] ! j"
      by simp
  qed
  moreover have "\<forall>x \<in> set idxs. - int (length row) \<le> x \<and> x < int (length row)"
    using assms by force
  ultimately show ?thesis
    using f by (simp add: index_fill_def Let_def)
qed

lemma py_slice_nat:
  "py_slice xs (int a) (int a + int b) = take b (drop a xs)"
proof -
  have "py_bound (length xs) (int a) = min (length xs) a"
    by (simp add: py_bound_def)
  moreover have "py_bound (length xs) (int a + int b) = min (length xs) (a + b)"
    by (simp add: py_bound_def nat_add_distrib)
  ultimately show ?thesis
    by (auto simp: py_slice_def Let_def min_def)
qed

lemma py_item_nat: "k < length xs \<Longrightarrow> py_item xs (int k) = Inr (xs ! k)"
  by (simp add: py_item_def Let_def)

lemma take_drop_upt: "hi \<le> length xs \<Longrightarrow> take (hi - lo) (drop lo xs) = map ((!) xs) [lo..<hi]"
  by (rule nth_equalityI) auto

lemma candidates_length: "wf_model m \<Longrightarrow> length (candidates m) = snd (snd (sizes m))"
  by (cases m) (auto simp: wf_model_def wf_cp_def wf_complex_def wf_table_def candidates_def sizes_def)

lemma get_rhs_chunk:
  assumes "wf_model m" "hi = min (snd (snd (sizes m))) (lo + cs)"
  shows "get_rhs m (int lo) (int cs) = map ((!) (candidates m)) [lo..<hi]"
proof -
  have "get_rhs m (int lo) (int cs) = take cs (drop lo (candidates m))"
    by (cases m) (simp_all add: get_rhs_def candidates_def py_slice_nat)
  also have "\<dots> = take (hi - lo) (drop lo (candidates m))"
    using assms candidates_length [OF assms(1)] by (simp add: min_def)
  also have "\<dots> = map ((!) (candidates m)) [lo..<hi]"
    using assms candidates_length [OF assms(1)] by (intro take_drop_upt) simp
  finally show ?thesis .
qed

lemma matmul_rows:
  "matmul (map (query_vec m) ts) (map ((!) (candidates m)) [lo..<hi])
     = map (\<lambda>t. map (candidate_score m t) [lo..<hi]) ts"
  by (simp add: matmul_def candidate_score_def comp_def)

lemma obj_in_range:
  assumes "wf_model m" "ids_ok m t"
  shows "0 \<le> obj t \<and> obj t < int (snd (snd (sizes m)))"
  using assms candidates_length [OF assms(1)]
  by (cases m) (auto simp: ids_ok_def in_table_def obj_def candidates_def)

text \<open>The two ways of turning a filter list into positions of the chunk's row.\<close>

lemma index_fill_chunked:
  assumes "\<forall>x \<in> set fl. 0 \<le> x \<and> x < int n" "hi = min n (lo + cs)" "lo \<le> hi"
  shows "index_fill (map g [lo..<hi])
           (map (\<lambda>x. x - int lo) (filter (\<lambda>x. int lo \<le> x \<and> x < int lo + int cs) fl))
         = Inr (map (\<lambda>j. if int j \<in> set fl then - 1000000 else g j) [lo..<hi])"
proof -
  define idxs where "idxs = map (\<lambda>x. x - int lo) (filter (\<lambda>x. int lo \<le> x \<and> x < int lo + int cs) fl)"
  have valid: "\<forall>x \<in> set idxs. 0 \<le> x \<and> x < int (length (map g [lo..<hi]))"
    using assms by (auto simp: idxs_def)
  have mem: "\<And>p. p < hi - lo \<Longrightarrow> int p \<in> set idxs \<longleftrightarrow> int lo + int p \<in> set fl"
  proof
    fix p assume "p < hi - lo" "int p \<in> set idxs"
    then obtain x where "x \<in> set fl" "int p = x - int lo" by (auto simp: idxs_def)
    then show "int lo + int p \<in> set fl" by (simp add: algebra_simps)
  next
    fix p assume p: "p < hi - lo" and "int lo + int p \<in> set fl"
    moreover have "int lo + int p < int lo + int cs" using p assms by auto
    ultimately have "int lo + int p \<in> set (filter (\<lambda>x. int lo \<le> x \<and> x < int lo + int cs) fl)"
      by simp
    then have "(int lo + int p) - int lo \<in> set idxs"
      unfolding idxs_def set_map by (rule imageI)
    then show "int p \<in> set idxs" by simp
  qed
  have "map (\<lambda>p. if int p \<in> set idxs then - 1000000 else map g [lo..<hi] ! p) [0..<length (map g [lo..<hi])]
        = map (\<lambda>j. if int j \<in> set fl then - 1000000 else g j) [lo..<hi]"
    by (rule nth_equalityI) (auto simp: mem)
  with index_fill_nonneg [OF valid] show ?thesis by (simp add: idxs_def)
qed

lemma index_fill_unchunked:
  assumes "\<forall>x \<in> set fl. 0 \<le> x \<and> x < int n"
  shows "index_fill (map g [0..<n]) fl
         = Inr (map (\<lambda>j. if int j \<in> set fl then - 1000000 else g j) [0..<n])"
proof -
  have valid: "\<forall>x \<in> set fl. 0 \<le> x \<and> x < int (length (map g [0..<n]))"
    using assms by auto
  have "map (\<lambda>p. if int p \<in> set fl then - 1000000 else map g [0..<n] ! p) [0..<length (map g [0..<n])]
        = map (\<lambda>j. if int j \<in> set fl then - 1000000 else g j) [0..<n]"
    by (rule nth_equalityI) auto
  with index_fill_nonneg [OF valid] show ?thesis by simp
qed

lemma mask_step:
  assumes "\<forall>x \<in> set fl. 0 \<le> x \<and> x < int n" "hi = min n (lo + cs)" "lo \<le> hi"
    "\<not> cs < n \<longrightarrow> lo = 0"
  shows "index_fill (map g [lo..<hi])
           (if int cs < int n
            then map (\<lambda>x. x - int lo) (filter (\<lambda>x. int lo \<le> x \<and> x < int lo + int cs) fl)
            else fl)
         = Inr (map (\<lambda>j. if int j \<in> set fl then - 1000000 else g j) [lo..<hi])"
proof (cases "cs < n")
  case True
  then show ?thesis using index_fill_chunked [OF assms(1-3)] by simp
next
  case False
  with assms have "lo = 0" "hi = n" by auto
  with False show ?thesis using index_fill_unchunked [OF assms(1)] by simp
qed

lemma mask_filtered_rows:
  assumes "length done = i"
    and "\<forall>j<length rest. py_item queries (bb + int (i + j)) = Inr (rest ! j)"
    and "\<forall>t \<in> set rest. F (key t) \<noteq> None \<and> (\<forall>x \<in> set (the (F (key t))). 0 \<le> x \<and> x < int n)
            \<and> 0 \<le> obj t \<and> obj t < int n"
    and "hi = min n (lo + cs)" "lo \<le> hi" "\<not> cs < n \<longrightarrow> lo = 0"
  shows "mask_filtered n (int cs) (int lo) queries bb i rest
           (done @ map (\<lambda>t. map (candidate_score m t) [lo..<hi]) rest) F
         = (Inr (done @ fst (masked_rows m lo hi F rest)), snd (masked_rows m lo hi F rest))"
  using assms(1-3)
proof (induction rest arbitrary: i "done" F)
  case Nil
  then show ?case by simp
next
  case (Cons t rest)
  from Cons.prems(3) obtain fl0 where fl0: "F (key t) = Some fl0"
    and fl0r: "\<forall>x \<in> set fl0. 0 \<le> x \<and> x < int n" and ot: "0 \<le> obj t" "obj t < int n"
    by auto
  let ?fl = "fl0 @ [obj t]"
  let ?F = "F(key t \<mapsto> ?fl)"
  let ?row = "map (\<lambda>j. if int j \<in> set ?fl then - 1000000 else candidate_score m t j) [lo..<hi]"
  let ?rows = "map (\<lambda>t. map (candidate_score m t) [lo..<hi]) rest"
  have item: "py_item queries (bb + int i) = Inr t"
    using Cons.prems(2) by (auto dest: spec [where x = 0])
  have flr: "\<forall>x \<in> set ?fl. 0 \<le> x \<and> x < int n" using fl0r ot by auto
  have fill: "index_fill (map (candidate_score m t) [lo..<hi])
           (if int cs < int n
            then map (\<lambda>x. x - int lo) (filter (\<lambda>x. int lo \<le> x \<and> x < int lo + int cs) ?fl)
            else ?fl) = Inr ?row"
    by (rule mask_step [OF flr assms(4-6)])
  have nth: "(done @ map (candidate_score m t) [lo..<hi] # ?rows) ! i = map (candidate_score m t) [lo..<hi]"
    using Cons.prems(1) by (simp add: nth_append)
  have upd: "(done @ map (candidate_score m t) [lo..<hi] # ?rows)[i := ?row] = (done @ [?row]) @ ?rows"
    using Cons.prems(1) by (simp add: list_update_append)
  have items': "\<forall>j<length rest. py_item queries (bb + int (Suc i + j)) = Inr (rest ! j)"
  proof (intro allI impI)
    fix j assume "j < length rest"
    then have "py_item queries (bb + int (i + Suc j)) = Inr ((t # rest) ! Suc j)"
      using Cons.prems(2) by (auto simp del: nth_Cons_Suc of_nat_Suc of_nat_add)
    then show "py_item queries (bb + int (Suc i + j)) = Inr (rest ! j)" by simp
  qed
  have ok': "\<forall>t' \<in> set rest. ?F (key t') \<noteq> None
            \<and> (\<forall>x \<in> set (the (?F (key t'))). 0 \<le> x \<and> x < int n) \<and> 0 \<le> obj t' \<and> obj t' < int n"
    using Cons.prems(3) flr by auto
  have IH: "mask_filtered n (int cs) (int lo) queries bb (Suc i) rest ((done @ [?row]) @ ?rows) ?F
         = (Inr ((done @ [?row]) @ fst (masked_rows m lo hi ?F rest)), snd (masked_rows m lo hi ?F rest))"
    by (rule Cons.IH [OF _ items' ok']) (use Cons.prems(1) in simp)
  have k: "F (fst t, fst (snd t)) = Some fl0" "snd (snd t) = obj t"
    using fl0 by (simp_all add: key_def obj_def)
  have k2: "F((fst t, fst (snd t)) \<mapsto> ?fl) = ?F" by (simp add: key_def)
  show ?case
    apply (simp only: list.map mask_filtered.simps k option.case item sum.case Let_def k2 nth fill upd IH)
    apply (simp add: fl0 Let_def masked_row_def)
    done
qed

lemma masked_rows_length [simp]: "length (fst (masked_rows m lo hi F ts)) = length ts"
  by (induction ts arbitrary: F) (simp_all add: Let_def)

lemma pass_counts_length [simp]: "length (pass_counts m lo hi F ts) = length ts"
  by (simp add: pass_counts_def count_ge_def)

lemma slice_add_nth:
  assumes "bb < length ranks" "0 < bs" "length ys = min bs (length ranks - bb)"
  shows "length (slice_add ranks (int bb) (int bb + int bs) ys) = length ranks
         \<and> (\<forall>k<length ranks. slice_add ranks (int bb) (int bb + int bs) ys ! k
                = ranks ! k + (if bb \<le> k \<and> k < bb + bs then ys ! (k - bb) else 0))"
proof -
  let ?n = "length ranks"
  have lo: "py_bound ?n (int bb) = bb"
    using assms by (simp add: py_bound_def)
  have hi: "py_bound ?n (int bb + int bs) = min ?n (bb + bs)"
    by (simp add: py_bound_def nat_add_distrib)
  let ?hi = "min ?n (bb + bs)"
  have m: "max bb ?hi = ?hi" using assms by simp
  have eq: "slice_add ranks (int bb) (int bb + int bs) ys
        = take bb ranks @ map2 (+) (take (?hi - bb) (drop bb ranks)) ys @ drop ?hi ranks"
    by (simp only: slice_add_def Let_def lo hi m)
  have len: "?hi - bb = length ys" using assms by (auto simp: min_def)
  show ?thesis
    unfolding eq using assms len
    by (auto simp: nth_append min_def)
qed

lemma these_queries_ok:
  "queries_ok m F queries \<Longrightarrow> queries_ok m F (take b (drop a queries))"
  by (auto simp: queries_ok_def dest!: in_set_takeD in_set_dropD)

lemma rank_batch_ok:
  assumes wf: "wf_model m" and ok: "queries_ok m F queries"
    and bb: "bb < length queries" and bs: "0 < bs"
    and geo: "hi = min (snd (snd (sizes m))) (lo + cs)" "lo \<le> hi" "\<not> cs < snd (snd (sizes m)) \<longrightarrow> lo = 0"
  shows "rank_batch m queries (int bs) (int cs) (int lo) (map ((!) (candidates m)) [lo..<hi]) (int bb) ranks F
         = (Inr (slice_add ranks (int bb) (int bb + int bs)
                   (pass_counts m lo hi F (take bs (drop bb queries)))),
            snd (masked_rows m lo hi F (take bs (drop bb queries))))"
proof -
  let ?these = "take bs (drop bb queries)"
  have these: "py_slice queries (int bb) (int bb + int bs) = ?these"
    by (rule py_slice_nat)
  have ok': "queries_ok m F ?these" by (rule these_queries_ok [OF ok])
  then have ids: "\<forall>t \<in> set ?these. ids_ok m t" by (simp add: queries_ok_def)
  have items: "\<forall>j<length ?these. py_item queries (int bb + int (0 + j)) = Inr (?these ! j)"
  proof (intro allI impI)
    fix j assume "j < length ?these"
    then have "j < length queries - bb" by simp
    then have "bb + j < length queries" by linarith
    then have "py_item queries (int (bb + j)) = Inr (queries ! (bb + j))" by (rule py_item_nat)
    moreover have "?these ! j = queries ! (bb + j)" using \<open>j < length ?these\<close> bb by simp
    ultimately show "py_item queries (int bb + int (0 + j)) = Inr (?these ! j)" by simp
  qed
  have rows_ok: "\<forall>t \<in> set ?these. F (key t) \<noteq> None
       \<and> (\<forall>x \<in> set (the (F (key t))). 0 \<le> x \<and> x < int (snd (snd (sizes m))))
       \<and> 0 \<le> obj t \<and> obj t < int (snd (snd (sizes m)))"
    using ok' obj_in_range [OF wf] by (auto simp: queries_ok_def)
  have mf: "mask_filtered (snd (snd (sizes m))) (int cs) (int lo) queries (int bb) 0 ?these
           ([] @ map (\<lambda>t. map (candidate_score m t) [lo..<hi]) ?these) F
         = (Inr ([] @ fst (masked_rows m lo hi F ?these)), snd (masked_rows m lo hi F ?these))"
    by (rule mask_filtered_rows [OF _ items rows_ok geo]) simp
  show ?thesis
    unfolding rank_batch_def these Let_def get_queries_rows [OF ids] score_rows [OF ids]
      matmul_rows sum.case
    using mf by (simp add: pass_counts_def)
qed

lemma masked_rows_append:
  "masked_rows m lo hi F (xs @ ys)
     = (fst (masked_rows m lo hi F xs) @ fst (masked_rows m lo hi (snd (masked_rows m lo hi F xs)) ys),
        snd (masked_rows m lo hi (snd (masked_rows m lo hi F xs)) ys))"
  by (induction xs arbitrary: F) (simp_all add: Let_def)

lemma count_ge_append:
  "length A = length ta \<Longrightarrow> count_ge (A @ B) (ta @ tb) = count_ge A ta @ count_ge B tb"
  by (simp add: count_ge_def)

lemma pass_counts_append:
  "pass_counts m lo hi F (xs @ ys)
     = pass_counts m lo hi F xs @ pass_counts m lo hi (snd (masked_rows m lo hi F xs)) ys"
  by (simp add: pass_counts_def masked_rows_append count_ge_append)

lemma queries_ok_update:
  assumes "queries_ok m F ts" "F k \<noteq> None" "0 \<le> x" "x < int (snd (snd (sizes m)))"
    "\<forall>y \<in> set (the (F k)). 0 \<le> y \<and> y < int (snd (snd (sizes m)))"
  shows "queries_ok m (F(k \<mapsto> the (F k) @ [x])) ts"
  using assms by (auto simp: queries_ok_def)

lemma queries_ok_masked_rows:
  assumes wf: "wf_model m"
  shows "queries_ok m F xs \<Longrightarrow> queries_ok m F ts \<Longrightarrow> queries_ok m (snd (masked_rows m lo hi F xs)) ts"
proof (induction xs arbitrary: F)
  case Nil
  then show ?case by simp
next
  case (Cons t xs)
  from Cons.prems(1) have t: "ids_ok m t" "F (key t) \<noteq> None"
    "\<forall>y \<in> set (the (F (key t))). 0 \<le> y \<and> y < int (snd (snd (sizes m)))"
    by (auto simp: queries_ok_def)
  have o: "0 \<le> obj t" "obj t < int (snd (snd (sizes m)))"
    using obj_in_range [OF wf t(1)] by auto
  have "queries_ok m F xs" using Cons.prems(1) by (simp add: queries_ok_def)
  then have 1: "queries_ok m (F(key t \<mapsto> the (F (key t)) @ [obj t])) xs"
    using t o by (intro queries_ok_update) auto
  have 2: "queries_ok m (F(key t \<mapsto> the (F (key t)) @ [obj t])) ts"
    using Cons.prems(2) t o by (intro queries_ok_update) auto
  show ?case using Cons.IH [OF 1 2] by (simp only: masked_rows.simps Let_def snd_conv)
qed

lemma batch_loop_ok:
  assumes wf: "wf_model m" and bs: "0 < bs"
    and geo: "hi = min (snd (snd (sizes m))) (lo + cs)" "lo \<le> hi" "\<not> cs < snd (snd (sizes m)) \<longrightarrow> lo = 0"
  shows "queries_ok m F queries \<Longrightarrow> length ranks = length queries \<Longrightarrow>
    \<exists>ranks'. batch_loop m queries (int bs) (int cs) (int lo) (map ((!) (candidates m)) [lo..<hi])
                (int bb) ranks F
              = Some (Inr ranks', snd (masked_rows m lo hi F (drop bb queries)))
      \<and> length ranks' = length queries
      \<and> (\<forall>k<length queries. ranks' ! k
            = ranks ! k + (if bb \<le> k then pass_counts m lo hi F (drop bb queries) ! (k - bb) else 0))"
proof (induction "length queries - bb" arbitrary: bb ranks F rule: less_induct)
  case less
  let ?rhs = "map ((!) (candidates m)) [lo..<hi]"
  show ?case
  proof (cases "bb < length queries")
    case False
    then have "batch_loop m queries (int bs) (int cs) (int lo) ?rhs (int bb) ranks F = Some (Inr ranks, F)"
      by (subst batch_loop.simps) simp
    with False less.prems show ?thesis by simp
  next
    case True
    let ?these = "take bs (drop bb queries)"
    let ?rest = "drop (bb + bs) queries"
    let ?F1 = "snd (masked_rows m lo hi F ?these)"
    let ?c1 = "pass_counts m lo hi F ?these"
    let ?ranks1 = "slice_add ranks (int bb) (int bb + int bs) ?c1"
    have split: "drop bb queries = ?these @ ?rest"
      by (metis add.commute append_take_drop_id drop_drop)
    have rb: "rank_batch m queries (int bs) (int cs) (int lo) ?rhs (int bb) ranks F = (Inr ?ranks1, ?F1)"
      by (rule rank_batch_ok [OF wf less.prems(1) True bs geo])
    have c1len: "length ?c1 = min bs (length ranks - bb)"
      using less.prems(2) by simp
    from slice_add_nth [OF _ bs c1len] True less.prems(2)
    have r1: "length ?ranks1 = length queries"
      "\<forall>k<length queries. ?ranks1 ! k = ranks ! k + (if bb \<le> k \<and> k < bb + bs then ?c1 ! (k - bb) else 0)"
      by auto
    have ok1: "queries_ok m ?F1 queries"
      by (rule queries_ok_masked_rows [OF wf these_queries_ok [OF less.prems(1)] less.prems(1)])
    have "length queries - (bb + bs) < length queries - bb" using True bs by simp
    from less.hyps [OF this ok1 r1(1)] obtain ranks'
      where IH: "batch_loop m queries (int bs) (int cs) (int lo) ?rhs (int (bb + bs)) ?ranks1 ?F1
              = Some (Inr ranks', snd (masked_rows m lo hi ?F1 ?rest))"
        "length ranks' = length queries"
        "\<forall>k<length queries. ranks' ! k
            = ?ranks1 ! k + (if bb + bs \<le> k then pass_counts m lo hi ?F1 ?rest ! (k - (bb + bs)) else 0)"
      by blast
    have loop: "batch_loop m queries (int bs) (int cs) (int lo) ?rhs (int bb) ranks F
              = Some (Inr ranks', snd (masked_rows m lo hi ?F1 ?rest))"
      using True rb IH(1) by (subst batch_loop.simps) simp
    have F': "snd (masked_rows m lo hi F (drop bb queries)) = snd (masked_rows m lo hi ?F1 ?rest)"
      by (subst split) (simp add: masked_rows_append)
    have pc: "pass_counts m lo hi F (drop bb queries) = ?c1 @ pass_counts m lo hi ?F1 ?rest"
      by (subst split) (simp add: pass_counts_append)
    have nth: "\<forall>k<length queries. ranks' ! k
            = ranks ! k + (if bb \<le> k then pass_counts m lo hi F (drop bb queries) ! (k - bb) else 0)"
    proof (intro allI impI)
      fix k assume k: "k < length queries"
      have l1: "length ?c1 = min bs (length queries - bb)" by simp
      consider "k < bb" | "bb \<le> k" "k < bb + bs" | "bb + bs \<le> k" by linarith
      then show "ranks' ! k
            = ranks ! k + (if bb \<le> k then pass_counts m lo hi F (drop bb queries) ! (k - bb) else 0)"
      proof cases
        case 1
        then show ?thesis using IH(3) r1(2) k by simp
      next
        case 2
        then have "k - bb < length ?c1" using k l1 by (simp add: min_def) linarith
        then have "(?c1 @ pass_counts m lo hi ?F1 ?rest) ! (k - bb) = ?c1 ! (k - bb)"
          by (simp only: nth_append if_True)
        then show ?thesis using IH(3) r1(2) k 2 unfolding pc by simp
      next
        case 3
        then have l: "length ?c1 = bs" using k l1 by (simp add: min_def)
        have "(?c1 @ pass_counts m lo hi ?F1 ?rest) ! (k - bb)
              = pass_counts m lo hi ?F1 ?rest ! (k - bb - bs)"
          using 3 by (simp only: nth_append l) simp
        moreover have "k - bb - bs = k - (bb + bs)" by simp
        ultimately show ?thesis using IH(3) r1(2) k 3 unfolding pc by simp
      qed
    qed
    from loop F' IH(2) nth show ?thesis by auto
  qed
qed

lemma chunk_loop_ok:
  assumes wf: "wf_model m" and bs: "0 < bs" and cs: "0 < cs"
  shows "queries_ok m F queries \<Longrightarrow> length ranks = length queries
    \<Longrightarrow> \<not> cs < snd (snd (sizes m)) \<longrightarrow> lo = 0 \<or> snd (snd (sizes m)) \<le> lo \<Longrightarrow>
    \<exists>ranks'. chunk_loop m queries (int bs) (int cs) (int lo) ranks F
              = Some (Inr ranks', snd (all_passes m cs lo F queries))
      \<and> length ranks' = length queries
      \<and> (\<forall>k<length queries. ranks' ! k
            = ranks ! k + (\<Sum>c\<leftarrow>fst (all_passes m cs lo F queries). c ! k))"
proof (induction "snd (snd (sizes m)) - lo" arbitrary: lo ranks F rule: less_induct)
  case less
  let ?n = "snd (snd (sizes m))"
  show ?case
  proof (cases "lo < ?n")
    case False
    then have "chunk_loop m queries (int bs) (int cs) (int lo) ranks F = Some (Inr ranks, F)"
      by (subst chunk_loop.simps) simp
    moreover have "all_passes m cs lo F queries = ([], F)"
      using False by (subst all_passes.simps) simp
    ultimately show ?thesis using less.prems by simp
  next
    case True
    let ?hi = "min ?n (lo + cs)"
    let ?F1 = "snd (masked_rows m lo ?hi F queries)"
    let ?c1 = "pass_counts m lo ?hi F queries"
    have geo: "?hi = min ?n (lo + cs)" "lo \<le> ?hi" "\<not> cs < ?n \<longrightarrow> lo = 0"
      using True less.prems(3) by auto
    have rhs: "get_rhs m (int lo) (int cs) = map ((!) (candidates m)) [lo..<?hi]"
      by (rule get_rhs_chunk [OF wf refl])
    from batch_loop_ok [OF wf bs geo less.prems(1,2), of 0] obtain ranks1
      where b: "batch_loop m queries (int bs) (int cs) (int lo) (map ((!) (candidates m)) [lo..<?hi])
                  0 ranks F = Some (Inr ranks1, ?F1)"
        "length ranks1 = length queries"
        "\<forall>k<length queries. ranks1 ! k = ranks ! k + ?c1 ! k"
      by auto
    have ok1: "queries_ok m ?F1 queries"
      by (rule queries_ok_masked_rows [OF wf less.prems(1) less.prems(1)])
    have m: "?n - (lo + cs) < ?n - lo" using True cs by simp
    have g': "\<not> cs < ?n \<longrightarrow> lo + cs = 0 \<or> ?n \<le> lo + cs" by auto
    from less.hyps [OF m ok1 b(2) g'] obtain ranks'
      where IH: "chunk_loop m queries (int bs) (int cs) (int (lo + cs)) ranks1 ?F1
              = Some (Inr ranks', snd (all_passes m cs (lo + cs) ?F1 queries))"
        "length ranks' = length queries"
        "\<forall>k<length queries. ranks' ! k
            = ranks1 ! k + (\<Sum>c\<leftarrow>fst (all_passes m cs (lo + cs) ?F1 queries). c ! k)"
      by blast
    have ap: "all_passes m cs lo F queries
              = (?c1 # fst (all_passes m cs (lo + cs) ?F1 queries),
                 snd (all_passes m cs (lo + cs) ?F1 queries))"
      using True cs by (subst all_passes.simps) (simp add: Let_def)
    have loop: "chunk_loop m queries (int bs) (int cs) (int lo) ranks F
              = Some (Inr ranks', snd (all_passes m cs (lo + cs) ?F1 queries))"
      using True b(1) IH(1) by (subst chunk_loop.simps) (simp add: rhs)
    show ?thesis
      unfolding ap using loop IH(2,3) b(3) by simp
  qed
qed

lemma get_ranking_ok:
  assumes wf: "wf_model m" and ok: "queries_ok m F queries" and bs: "0 < bs" and cs: "cs \<noteq> 0"
  shows "\<exists>ranks. get_ranking m queries F bs cs
                  = Some (Inr ranks, snd (all_passes m (chunk_of m cs) 0 F queries))
      \<and> length ranks = length queries
      \<and> (\<forall>k<length queries. ranks ! k
            = 1 + (\<Sum>c\<leftarrow>fst (all_passes m (chunk_of m cs) 0 F queries). c ! k))"
proof (cases "chunk_of m cs = 0")
  case True
  with cs have n: "snd (snd (sizes m)) = 0" "cs < 0"
    by (auto simp: chunk_of_def split: if_splits)
  then have "get_ranking m queries F bs cs = Some (Inr (replicate (length queries) 1), F)"
    by (simp add: get_ranking_def Let_def) (subst chunk_loop.simps, simp)
  moreover have "all_passes m (chunk_of m cs) 0 F queries = ([], F)"
    using n by (subst all_passes.simps) simp
  ultimately show ?thesis by simp
next
  case False
  then have pos: "0 < chunk_of m cs" by simp
  have c: "(if cs < 0 then int (snd (snd (sizes m))) else cs) = int (chunk_of m cs)"
    using cs by (simp add: chunk_of_def)
  have b: "bs = int (nat bs)" using bs by simp
  have "0 < nat bs" using bs by simp
  from chunk_loop_ok [OF wf this pos ok, of "replicate (length queries) 1" 0]
  obtain ranks' where r: "chunk_loop m queries (int (nat bs)) (int (chunk_of m cs)) (int 0)
                 (replicate (length queries) 1) F
              = Some (Inr ranks', snd (all_passes m (chunk_of m cs) 0 F queries))"
      "length ranks' = length queries"
      "\<forall>k<length queries. ranks' ! k
            = replicate (length queries) 1 ! k
              + (\<Sum>c\<leftarrow>fst (all_passes m (chunk_of m cs) 0 F queries). c ! k)"
    by auto
  have "get_ranking m queries F bs cs
          = Some (Inr ranks', snd (all_passes m (chunk_of m cs) 0 F queries))"
    using r(1) b by (simp add: get_ranking_def Let_def c)
  with r(2,3) show ?thesis by auto
qed

lemma masked_rows_filters:
  "\<forall>t \<in> set ts. F (key t) \<noteq> None \<Longrightarrow>
     snd (masked_rows m lo hi F ts) = (\<lambda>k. map_option (\<lambda>fl. fl @ objs ts k) (F k))"
proof (induction ts arbitrary: F)
  case Nil
  show ?case by (simp add: objs_def option.map_ident)
next
  case (Cons t ts)
  from Cons.prems obtain fl0 where fl0: "F (key t) = Some fl0" by auto
  let ?F = "F(key t \<mapsto> fl0 @ [obj t])"
  have "\<forall>t' \<in> set ts. ?F (key t') \<noteq> None" using Cons.prems by auto
  from Cons.IH [OF this]
  have "snd (masked_rows m lo hi ?F ts) = (\<lambda>k. map_option (\<lambda>fl. fl @ objs ts k) (?F k))" .
  also have "\<dots> = (\<lambda>k. map_option (\<lambda>fl. fl @ objs (t # ts) k) (F k))"
    by (rule ext) (simp add: fl0 objs_def)
  finally show ?case by (simp add: fl0 Let_def)
qed

lemma all_passes_filters:
  "\<forall>t \<in> set ts. F (key t) \<noteq> None \<Longrightarrow>
     snd (all_passes m cs lo F ts)
       = (\<lambda>k. map_option (\<lambda>fl. fl @ concat (replicate (length (fst (all_passes m cs lo F ts))) (objs ts k)))
                 (F k))"
proof (induction m cs lo F ts rule: all_passes.induct)
  case (1 m cs lo F ts)
  let ?n = "snd (snd (sizes m))"
  show ?case
  proof (cases "lo < ?n \<and> 0 < cs")
    case False
    then have "all_passes m cs lo F ts = ([], F)" by (subst all_passes.simps) simp
    then show ?thesis by (simp add: option.map_ident)
  next
    case True
    let ?hi = "min ?n (lo + cs)"
    let ?F1 = "snd (masked_rows m lo ?hi F ts)"
    let ?r = "all_passes m cs (lo + cs) ?F1 ts"
    have F1: "?F1 = (\<lambda>k. map_option (\<lambda>fl. fl @ objs ts k) (F k))"
      by (rule masked_rows_filters [OF "1.prems"])
    have keys: "\<forall>t \<in> set ts. ?F1 (key t) \<noteq> None"
      using "1.prems" by (simp add: F1)
    have IH: "snd ?r = (\<lambda>k. map_option (\<lambda>fl. fl @ concat (replicate (length (fst ?r)) (objs ts k))) (?F1 k))"
      by (rule "1.IH" [OF True refl keys])
    have ap: "all_passes m cs lo F ts = (pass_counts m lo ?hi F ts # fst ?r, snd ?r)"
      using True by (subst all_passes.simps) (simp add: Let_def)
    have "snd ?r = (\<lambda>k. map_option (\<lambda>fl. fl @ concat (replicate (Suc (length (fst ?r))) (objs ts k))) (F k))"
      by (subst IH, rule ext) (simp add: F1 option.map_comp comp_def)
    then show ?thesis unfolding ap by simp
  qed
qed

lemma all_passes_length:
  "0 < cs \<Longrightarrow> length (fst (all_passes m cs lo F ts)) = (snd (snd (sizes m)) - lo + cs - 1) div cs"
proof (induction m cs lo F ts rule: all_passes.induct)
  case (1 m cs lo F ts)
  let ?n = "snd (snd (sizes m))"
  show ?case
  proof (cases "lo < ?n")
    case False
    then have "all_passes m cs lo F ts = ([], F)" by (subst all_passes.simps) simp
    moreover have "(?n - lo + cs - 1) div cs = 0" using False "1.prems" by simp
    ultimately show ?thesis by simp
  next
    case True
    let ?hi = "min ?n (lo + cs)"
    let ?F1 = "snd (masked_rows m lo ?hi F ts)"
    let ?r = "all_passes m cs (lo + cs) ?F1 ts"
    have IH: "length (fst ?r) = (?n - (lo + cs) + cs - 1) div cs"
      using "1.IH" [OF _ refl "1.prems"] True "1.prems" by simp
    have ap: "all_passes m cs lo F ts = (pass_counts m lo ?hi F ts # fst ?r, snd ?r)"
      using True "1.prems" by (subst all_passes.simps) (simp add: Let_def)
    have "(?n - lo + cs - 1) div cs = Suc ((?n - (lo + cs) + cs - 1) div cs)"
    proof (cases "?n \<le> lo + cs")
      case le: True
      have "cs \<le> ?n - lo + cs - 1" "?n - lo + cs - 1 < 2 * cs" using True le by auto
      then have "(?n - lo + cs - 1) div cs = 1"
        by (intro div_nat_eqI) auto
      moreover have "(?n - (lo + cs) + cs - 1) div cs = 0" using le "1.prems" by simp
      ultimately show ?thesis by simp
    next
      case gt: False
      define x where "x = ?n - (lo + cs) + cs - 1"
      have e: "?n - lo + cs - 1 = x + cs" using gt by (simp add: x_def)
      have "(x + cs) div cs = Suc (x div cs)" using "1.prems" by simp
      then show ?thesis unfolding e x_def .
    qed
    then show ?thesis unfolding ap using IH by simp
  qed
qed

lemma num_passes:
  "cs \<noteq> 0 \<Longrightarrow> length (fst (all_passes m (chunk_of m cs) 0 F ts)) = num_chunks m cs"
proof (cases "chunk_of m cs = 0")
  case True
  then show ?thesis by (subst all_passes.simps) (simp add: num_chunks_def)
next
  case False
  then show ?thesis using all_passes_length [of "chunk_of m cs" m 0 F ts]
    by (simp add: num_chunks_def)
qed

lemma queries_ok_all_passes:
  "wf_model m \<Longrightarrow> queries_ok m F ts \<Longrightarrow> queries_ok m (snd (all_passes m cs lo F ts)) ts"
proof (induction m cs lo F ts rule: all_passes.induct)
  case (1 m cs lo F ts)
  let ?n = "snd (snd (sizes m))"
  show ?case
  proof (cases "lo < ?n \<and> 0 < cs")
    case False
    then have "all_passes m cs lo F ts = ([], F)" by (subst all_passes.simps) simp
    with "1.prems" show ?thesis by simp
  next
    case True
    let ?hi = "min ?n (lo + cs)"
    let ?F1 = "snd (masked_rows m lo ?hi F ts)"
    let ?r = "all_passes m cs (lo + cs) ?F1 ts"
    have ap: "all_passes m cs lo F ts = (pass_counts m lo ?hi F ts # fst ?r, snd ?r)"
      using True by (subst all_passes.simps) (simp add: Let_def)
    have "queries_ok m ?F1 ts"
      by (rule queries_ok_masked_rows [OF "1.prems"(1) "1.prems"(2) "1.prems"(2)])
    from "1.IH" [OF True refl "1.prems"(1) this] show ?thesis unfolding ap by simp
  qed
qed

lemma masked_rows_nth:
  "\<forall>t \<in> set ts. F (key t) \<noteq> None \<Longrightarrow> k < length ts \<Longrightarrow>
     fst (masked_rows m lo hi F ts) ! k
       = masked_row m (ts ! k)
           (set (the (F (key (ts ! k)))) \<union> set (objs (take (Suc k) ts) (key (ts ! k)))) lo hi"
proof (induction ts arbitrary: F k)
  case Nil
  then show ?case by simp
next
  case (Cons t ts)
  from Cons.prems obtain fl0 where fl0: "F (key t) = Some fl0" by auto
  let ?F = "F(key t \<mapsto> fl0 @ [obj t])"
  show ?case
  proof (cases k)
    case 0
    then show ?thesis by (simp add: fl0 Let_def objs_def)
  next
    case (Suc k')
    have keys: "\<forall>t' \<in> set ts. ?F (key t') \<noteq> None" using Cons.prems by auto
    have k': "k' < length ts" using Cons.prems Suc by simp
    have "set (the (?F (key (ts ! k')))) \<union> set (objs (take (Suc k') ts) (key (ts ! k')))
          = set (the (F (key (ts ! k')))) \<union> set (objs (take (Suc k) (t # ts)) (key (ts ! k')))"
    proof (cases "key t = key (ts ! k')")
      case True
      then have "F (key (ts ! k')) = Some fl0" using fl0 by simp
      with True Suc show ?thesis by (auto simp: objs_def)
    next
      case False
      with Suc show ?thesis by (auto simp: objs_def)
    qed
    note seteq = this
    have "fst (masked_rows m lo hi F (t # ts)) ! k = fst (masked_rows m lo hi ?F ts) ! k'"
      using Suc by (simp add: fl0 Let_def)
    also have "\<dots> = masked_row m (ts ! k')
           (set (the (?F (key (ts ! k')))) \<union> set (objs (take (Suc k') ts) (key (ts ! k')))) lo hi"
      by (rule Cons.IH [OF keys k'])
    also have "\<dots> = masked_row m (ts ! k')
           (set (the (F (key (ts ! k')))) \<union> set (objs (take (Suc k) (t # ts)) (key (ts ! k')))) lo hi"
      by (simp only: seteq)
    finally show ?thesis using Suc by simp
  qed
qed

lemma count_ge_nth:
  "k < length rows \<Longrightarrow> k < length targets \<Longrightarrow>
     count_ge rows targets ! k = length (filter (\<lambda>s. targets ! k \<le> s) (rows ! k))"
  by (simp add: count_ge_def)

lemma pass_counts_nth:
  assumes "\<forall>t \<in> set ts. F (key t) \<noteq> None" "k < length ts"
  shows "pass_counts m lo hi F ts ! k
           = filtered_count m (ts ! k)
               (set (the (F (key (ts ! k)))) \<union> set (objs (take (Suc k) ts) (key (ts ! k)))) lo hi"
  using assms
  by (simp add: pass_counts_def count_ge_nth masked_rows_nth masked_row_def filtered_count_def
      filter_map comp_def)

lemma upt_split: "lo \<le> mid \<Longrightarrow> mid \<le> hi \<Longrightarrow> [lo..<hi] = [lo..<mid] @ [mid..<hi]"
  using upt_add_eq_append [of lo mid "hi - mid"] by simp

lemma filtered_count_split:
  "lo \<le> mid \<Longrightarrow> mid \<le> hi \<Longrightarrow>
     filtered_count m t S lo hi = filtered_count m t S lo mid + filtered_count m t S mid hi"
  by (simp add: filtered_count_def upt_split [of lo mid hi])

lemma unfiltered_above_split:
  "lo \<le> mid \<Longrightarrow> mid \<le> hi \<Longrightarrow>
     unfiltered_above m t S lo hi = unfiltered_above m t S lo mid + unfiltered_above m t S mid hi"
  by (simp add: unfiltered_above_def upt_split [of lo mid hi])

lemma filtered_count_above:
  "- 1000000 < triple_score m t \<Longrightarrow> filtered_count m t S lo hi = unfiltered_above m t S lo hi"
  unfolding filtered_count_def unfiltered_above_def
  by (rule arg_cong [where f = length], rule filter_cong) auto

lemma length_filter_mono:
  "(\<And>x. x \<in> set xs \<Longrightarrow> P x \<Longrightarrow> Q x) \<Longrightarrow> length (filter P xs) \<le> length (filter Q xs)"
  by (induction xs) auto

lemma unfiltered_above_mono:
  "S' \<subseteq> S \<Longrightarrow> unfiltered_above m t S lo hi \<le> unfiltered_above m t S' lo hi"
  unfolding unfiltered_above_def by (rule length_filter_mono) auto

lemma filtered_count_cong:
  "S = S' \<Longrightarrow> filtered_count m t S lo hi = filtered_count m t S' lo hi"
  by simp

lemma objs_closed:
  "\<forall>t \<in> set xs. obj t \<in> set (the (F (key t))) \<Longrightarrow> set (objs xs k) \<subseteq> set (the (F k))"
  by (auto simp: objs_def)

lemma count_empty_range [simp]: "hi \<le> lo \<Longrightarrow> filtered_count m t S lo hi = 0"
  by (simp add: filtered_count_def)

lemma above_empty_range [simp]: "hi \<le> lo \<Longrightarrow> unfiltered_above m t S lo hi = 0"
  by (simp add: unfiltered_above_def)

lemma all_passes_sum_closed:
  "\<forall>t \<in> set ts. F (key t) \<noteq> None \<Longrightarrow> \<forall>t \<in> set ts. obj t \<in> set (the (F (key t))) \<Longrightarrow>
   k < length ts \<Longrightarrow> 0 < cs \<Longrightarrow>
     (\<Sum>c\<leftarrow>fst (all_passes m cs lo F ts). c ! k)
       = filtered_count m (ts ! k) (set (the (F (key (ts ! k))))) lo (snd (snd (sizes m)))"
proof (induction m cs lo F ts rule: all_passes.induct)
  case (1 m cs lo F ts)
  let ?n = "snd (snd (sizes m))"
  let ?t = "ts ! k"
  let ?S = "set (the (F (key ?t)))"
  show ?case
  proof (cases "lo < ?n")
    case False
    then have "all_passes m cs lo F ts = ([], F)" by (subst all_passes.simps) simp
    with False show ?thesis by simp
  next
    case True
    let ?hi = "min ?n (lo + cs)"
    let ?F1 = "snd (masked_rows m lo ?hi F ts)"
    let ?r = "all_passes m cs (lo + cs) ?F1 ts"
    have c: "lo < ?n \<and> 0 < cs" using True "1.prems" by simp
    have ap: "all_passes m cs lo F ts = (pass_counts m lo ?hi F ts # fst ?r, snd ?r)"
      using c by (subst all_passes.simps) (simp add: Let_def)
    have F1: "?F1 = (\<lambda>k. map_option (\<lambda>fl. fl @ objs ts k) (F k))"
      by (rule masked_rows_filters [OF "1.prems"(1)])
    have keys1: "\<forall>t \<in> set ts. ?F1 (key t) \<noteq> None"
      using "1.prems"(1) by (simp add: F1)
    have the1: "\<And>t. t \<in> set ts \<Longrightarrow> the (?F1 (key t)) = the (F (key t)) @ objs ts (key t)"
      using "1.prems"(1) by (auto simp: F1)
    have closed1: "\<forall>t \<in> set ts. obj t \<in> set (the (?F1 (key t)))"
      using "1.prems"(2) by (simp add: the1)
    have tk: "?t \<in> set ts" using "1.prems"(3) by simp
    have S1: "set (the (?F1 (key ?t))) = ?S"
      using objs_closed [OF "1.prems"(2), of "key ?t"] by (auto simp: the1 [OF tk])
    have "set (objs (take (Suc k) ts) (key ?t)) \<subseteq> ?S"
      by (rule objs_closed) (use "1.prems"(2) in \<open>auto dest: in_set_takeD\<close>)
    then have S0: "?S \<union> set (objs (take (Suc k) ts) (key ?t)) = ?S" by auto
    have first: "pass_counts m lo ?hi F ts ! k = filtered_count m ?t ?S lo ?hi"
      using pass_counts_nth [OF "1.prems"(1,3), of m lo ?hi] by (simp only: S0)
    have rest: "(\<Sum>c\<leftarrow>fst ?r. c ! k) = filtered_count m ?t ?S (lo + cs) ?n"
      using "1.IH" [OF c refl keys1 closed1 "1.prems"(3,4)] by (simp only: S1)
    have "filtered_count m ?t ?S lo ?hi + filtered_count m ?t ?S (lo + cs) ?n
          = filtered_count m ?t ?S lo ?n"
    proof (cases "lo + cs \<le> ?n")
      case True
      then have "?hi = lo + cs" by simp
      then show ?thesis using filtered_count_split [of lo "lo + cs" ?n m ?t ?S] True by simp
    next
      case False
      then have "?hi = ?n" by simp
      then show ?thesis using False by simp
    qed
    then show ?thesis unfolding ap using first rest by simp
  qed
qed

lemma all_passes_sum_bound:
  "\<forall>t \<in> set ts. F (key t) \<noteq> None \<Longrightarrow> k < length ts \<Longrightarrow> 0 < cs \<Longrightarrow>
   - 1000000 < triple_score m (ts ! k) \<Longrightarrow> S0 \<subseteq> set (the (F (key (ts ! k)))) \<union> {obj (ts ! k)} \<Longrightarrow>
     (\<Sum>c\<leftarrow>fst (all_passes m cs lo F ts). c ! k)
       \<le> unfiltered_above m (ts ! k) S0 lo (snd (snd (sizes m)))"
proof (induction m cs lo F ts rule: all_passes.induct)
  case (1 m cs lo F ts)
  let ?n = "snd (snd (sizes m))"
  let ?t = "ts ! k"
  let ?S = "set (the (F (key ?t)))"
  show ?case
  proof (cases "lo < ?n")
    case False
    then have "all_passes m cs lo F ts = ([], F)" by (subst all_passes.simps) simp
    with False show ?thesis by simp
  next
    case True
    let ?hi = "min ?n (lo + cs)"
    let ?F1 = "snd (masked_rows m lo ?hi F ts)"
    let ?r = "all_passes m cs (lo + cs) ?F1 ts"
    have c: "lo < ?n \<and> 0 < cs" using True "1.prems" by simp
    have ap: "all_passes m cs lo F ts = (pass_counts m lo ?hi F ts # fst ?r, snd ?r)"
      using c by (subst all_passes.simps) (simp add: Let_def)
    have F1: "?F1 = (\<lambda>k. map_option (\<lambda>fl. fl @ objs ts k) (F k))"
      by (rule masked_rows_filters [OF "1.prems"(1)])
    have keys1: "\<forall>t \<in> set ts. ?F1 (key t) \<noteq> None"
      using "1.prems"(1) by (simp add: F1)
    have tk: "?t \<in> set ts" using "1.prems"(2) by simp
    have the1: "the (?F1 (key ?t)) = the (F (key ?t)) @ objs ts (key ?t)"
      using "1.prems"(1) tk by (auto simp: F1)
    have sub1: "S0 \<subseteq> set (the (?F1 (key ?t))) \<union> {obj ?t}"
      using "1.prems"(5) by (auto simp: the1)
    have "?t \<in> set (take (Suc k) ts)"
      using "1.prems"(2) by (simp add: take_Suc_conv_app_nth)
    then have "obj ?t \<in> set (objs (take (Suc k) ts) (key ?t))"
      by (auto simp: objs_def)
    then have sub0: "S0 \<subseteq> ?S \<union> set (objs (take (Suc k) ts) (key ?t))"
      using "1.prems"(5) by auto
    have "pass_counts m lo ?hi F ts ! k
            = unfiltered_above m ?t (?S \<union> set (objs (take (Suc k) ts) (key ?t))) lo ?hi"
      using pass_counts_nth [OF "1.prems"(1,2), of m lo ?hi] filtered_count_above [OF "1.prems"(4)]
      by simp
    also have "\<dots> \<le> unfiltered_above m ?t S0 lo ?hi"
      by (rule unfiltered_above_mono [OF sub0])
    finally have first: "pass_counts m lo ?hi F ts ! k \<le> unfiltered_above m ?t S0 lo ?hi" .
    have rest: "(\<Sum>c\<leftarrow>fst ?r. c ! k) \<le> unfiltered_above m ?t S0 (lo + cs) ?n"
      by (rule "1.IH" [OF c refl keys1 "1.prems"(2,3,4) sub1])
    have "unfiltered_above m ?t S0 lo ?hi + unfiltered_above m ?t S0 (lo + cs) ?n
          = unfiltered_above m ?t S0 lo ?n"
    proof (cases "lo + cs \<le> ?n")
      case True
      then have "?hi = lo + cs" by simp
      then show ?thesis using unfiltered_above_split [of lo "lo + cs" ?n m ?t S0] True by simp
    next
      case False
      then have "?hi = ?n" by simp
      then show ?thesis using False by simp
    qed
    then show ?thesis unfolding ap using first rest by simp
  qed
qed

section \<open>The claims about the filtered ranking\<close>

text \<open>
  Claim C10. A call of \<^verbatim>\<open>get_ranking\<close> that returns hands back a changed filter
  dictionary: the list of every key has grown by the true objects of the queries with
  that key, in the order of the queries, once for every pass over a chunk of
  candidates. The changed dictionary is again one that the ranking runs on, so a
  second call appends the same entries once more.
\<close>

theorem get_ranking_appends_true_objects:
  assumes wf: "wf_model m" and ok: "queries_ok m F queries" and bs: "0 < bs" and cs: "cs \<noteq> 0"
  shows "\<exists>ranks F'. get_ranking m queries F bs cs = Some (Inr ranks, F')
           \<and> F' = (\<lambda>k. map_option (\<lambda>fl. fl @ concat (replicate (num_chunks m cs) (objs queries k))) (F k))
           \<and> queries_ok m F' queries"
proof -
  let ?F' = "snd (all_passes m (chunk_of m cs) 0 F queries)"
  from get_ranking_ok [OF wf ok bs cs] obtain ranks
    where r: "get_ranking m queries F bs cs = Some (Inr ranks, ?F')"
    by blast
  have keys: "\<forall>t \<in> set queries. F (key t) \<noteq> None"
    using ok by (simp add: queries_ok_def)
  have "?F' = (\<lambda>k. map_option (\<lambda>fl. fl @ concat (replicate (num_chunks m cs) (objs queries k))) (F k))"
    using all_passes_filters [OF keys, of m "chunk_of m cs" 0] num_passes [OF cs, of m F queries]
    by simp
  moreover have "queries_ok m ?F' queries"
    by (rule queries_ok_all_passes [OF wf ok])
  ultimately show ?thesis using r by blast
qed

text \<open>
  Two candidates, two queries with the key \<open>(0, 0)\<close> and the true objects 0 and 1, an
  empty filter list and chunks of one candidate: after the two passes the list is
  \<open>[0, 1, 0, 1]\<close>.
\<close>

theorem get_ranking_appends_true_objects_witness:
  "\<exists>ranks F'. get_ranking (CP \<lparr>cp_sizes = (1, 1, 2), cp_rank = 1, cp_lhs = [[1]], cp_rel = [[1]],
                               cp_rhs = [[1], [2]]\<rparr>)
                 [(0, 0, 0), (0, 0, 1)] [(0, 0) \<mapsto> []] 1000 1 = Some (Inr ranks, F')
     \<and> F' (0, 0) = Some [0, 1, 0, 1]"
proof -
  let ?m = "CP \<lparr>cp_sizes = (1, 1, 2), cp_rank = 1, cp_lhs = [[1]], cp_rel = [[1]], cp_rhs = [[1], [2]]\<rparr>"
  let ?F = "[(0 :: int, 0 :: int) \<mapsto> ([] :: int list)]"
  have wf: "wf_model ?m"
    by (simp add: wf_model_def wf_cp_def wf_table_def)
  have ok: "queries_ok ?m ?F [(0, 0, 0), (0, 0, 1)]"
    by (simp add: queries_ok_def ids_ok_def in_table_def key_def)
  have n: "num_chunks ?m 1 = 2"
    by (simp add: num_chunks_def chunk_of_def sizes_def)
  have o: "objs [(0, 0, 0), (0, 0, 1)] (0, 0) = [0, 1]"
    by (simp add: objs_def key_def obj_def)
  from get_ranking_appends_true_objects [OF wf ok, of 1000 1] obtain ranks F'
    where r: "get_ranking ?m [(0, 0, 0), (0, 0, 1)] ?F 1000 1 = Some (Inr ranks, F')"
      and F': "F' = (\<lambda>k. map_option (\<lambda>fl. fl @ concat (replicate (num_chunks ?m 1)
                        (objs [(0, 0, 0), (0, 0, 1)] k))) (?F k))"
    by auto
  have "F' (0, 0) = Some [0, 1, 0, 1]"
    unfolding F' n o by (simp add: numeral_2_eq_2)
  with r show ?thesis by blast
qed

text \<open>
  Claim C3, as amended. For every query of a call that returns, the rank is a positive
  whole number. Where the filter lists already hold the true object of every query and
  the true answer scores above the sentinel \<open>-1e6\<close>, the rank is 1 plus the number of
  candidates outside the query's filter list that score at least as high as the true
  answer.
\<close>

theorem get_ranking_filtered_rank:
  assumes wf: "wf_model m" and ok: "queries_ok m F queries" and bs: "0 < bs" and cs: "cs \<noteq> 0"
  shows "\<exists>ranks F'. get_ranking m queries F bs cs = Some (Inr ranks, F')
           \<and> length ranks = length queries
           \<and> (\<forall>k<length queries. 1 \<le> ranks ! k
                \<and> ((\<forall>t \<in> set queries. obj t \<in> set (the (F (key t))))
                     \<and> - 1000000 < triple_score m (queries ! k)
                   \<longrightarrow> ranks ! k = 1 + unfiltered_above m (queries ! k)
                                         (set (the (F (key (queries ! k))))) 0 (snd (snd (sizes m)))))"
proof -
  let ?n = "snd (snd (sizes m))"
  let ?ap = "all_passes m (chunk_of m cs) 0 F queries"
  from get_ranking_ok [OF wf ok bs cs] obtain ranks
    where r: "get_ranking m queries F bs cs = Some (Inr ranks, snd ?ap)"
      "length ranks = length queries"
      "\<forall>k<length queries. ranks ! k = 1 + (\<Sum>c\<leftarrow>fst ?ap. c ! k)"
    by blast
  have keys: "\<forall>t \<in> set queries. F (key t) \<noteq> None"
    using ok by (simp add: queries_ok_def)
  have "ranks ! k = 1 + unfiltered_above m (queries ! k) (set (the (F (key (queries ! k))))) 0 ?n"
    if k: "k < length queries" and closed: "\<forall>t \<in> set queries. obj t \<in> set (the (F (key t)))"
      and above: "- 1000000 < triple_score m (queries ! k)" for k
  proof (cases "chunk_of m cs = 0")
    case True
    with cs have "?n = 0" by (auto simp: chunk_of_def split: if_splits)
    moreover have "?ap = ([], F)" using True by (subst all_passes.simps) simp
    ultimately show ?thesis using r(3) k by simp
  next
    case False
    then have "0 < chunk_of m cs" by simp
    from all_passes_sum_closed [OF keys closed k this, of m 0]
    show ?thesis using r(3) k filtered_count_above [OF above] by simp
  qed
  with r show ?thesis by auto
qed

text \<open>
  Three candidates scoring 1, 2 and 3 for the subject and relation 0, the filter list
  \<open>[1, 2]\<close> and the true object 1: candidate 2 is filtered and candidate 0 scores
  lower, so the rank is 1.
\<close>

theorem get_ranking_filtered_rank_witness:
  "\<exists>ranks F'. get_ranking three_candidates [(0, 0, 1)] [(0, 0) \<mapsto> [1, 2]] 1000 2
                 = Some (Inr ranks, F')
     \<and> ranks = [1]"
proof -
  let ?F = "[(0 :: int, 0 :: int) \<mapsto> [1, 2 :: int]]"
  have wf: "wf_model three_candidates"
    by (simp add: three_candidates_def wf_model_def wf_cp_def wf_table_def)
  have ok: "queries_ok three_candidates ?F [(0, 0, 1)]"
    by (simp add: three_candidates_def queries_ok_def ids_ok_def in_table_def key_def sizes_def)
  have closed: "\<forall>t \<in> set [(0, 0, 1)]. obj t \<in> set (the (?F (key t)))"
    by (simp add: key_def obj_def)
  have sc: "triple_score three_candidates (0, 0, 1) = 2"
    by (simp add: three_candidates_def triple_score_def vmul_def)
  have n: "snd (snd (sizes three_candidates)) = 3"
    by (simp add: three_candidates_def sizes_def)
  have cand: "candidate_score three_candidates (0, 0, 1) 0 = 1"
    by (simp add: three_candidates_def candidate_score_def candidates_def query_vec_def dot_def vmul_def)
  have ua: "unfiltered_above three_candidates (0, 0, 1) (set (the (?F (key (0, 0, 1))))) 0 3 = 0"
    by (simp add: unfiltered_above_def key_def sc cand upt_rec)
  have bs: "(0 :: int) < 1000" and cs: "(2 :: int) \<noteq> 0" by simp_all
  from get_ranking_filtered_rank [OF wf ok bs cs] obtain ranks F'
    where r: "get_ranking three_candidates [(0, 0, 1)] ?F 1000 2 = Some (Inr ranks, F')"
      and l: "length ranks = length [(0 :: int, 0 :: int, 1 :: int)]"
      and k: "\<forall>k<length [(0 :: int, 0 :: int, 1 :: int)]. 1 \<le> ranks ! k
                \<and> ((\<forall>t \<in> set [(0, 0, 1)]. obj t \<in> set (the (?F (key t))))
                     \<and> - 1000000 < triple_score three_candidates ([(0, 0, 1)] ! k)
                   \<longrightarrow> ranks ! k = 1 + unfiltered_above three_candidates ([(0, 0, 1)] ! k)
                                         (set (the (?F (key ([(0, 0, 1)] ! k))))) 0
                                         (snd (snd (sizes three_candidates))))"
    by blast
  from k have "ranks ! 0 = 1 + unfiltered_above three_candidates (0, 0, 1)
                                         (set (the (?F (key (0, 0, 1))))) 0 3"
    using closed by (simp add: sc n)
  then have "ranks ! 0 = 1" by (simp only: ua)
  moreover from l have "length ranks = 1" by simp
  ultimately have "ranks = [1]"
    by (cases ranks) auto
  with r show ?thesis by blast
qed

text \<open>
  Claim C3 as stated fails where the true answer scores at the sentinel: one candidate,
  the true object itself, scoring \<open>-1000 * 1000 * 1 = -1e6\<close>. No candidate is outside
  the filter, and the rank is 2.
\<close>

theorem rank_counts_sentinel:
  "map_option fst (get_ranking (CP \<lparr>cp_sizes = (1, 1, 1), cp_rank = 1, cp_lhs = [[- 1000]],
                                    cp_rel = [[1000]], cp_rhs = [[1]]\<rparr>)
                     [(0, 0, 0)] [(0, 0) \<mapsto> [0]] 1000 (- 1)) = Some (Inr [2])
   \<and> unfiltered_above (CP \<lparr>cp_sizes = (1, 1, 1), cp_rank = 1, cp_lhs = [[- 1000]],
                             cp_rel = [[1000]], cp_rhs = [[1]]\<rparr>) (0, 0, 0) {0} 0 1 = 0"
proof
  show "map_option fst (get_ranking (CP \<lparr>cp_sizes = (1, 1, 1), cp_rank = 1, cp_lhs = [[- 1000]],
                                    cp_rel = [[1000]], cp_rhs = [[1]]\<rparr>)
                     [(0, 0, 0)] [(0, 0) \<mapsto> [0]] 1000 (- 1)) = Some (Inr [2])"
    by code_simp
  show "unfiltered_above (CP \<lparr>cp_sizes = (1, 1, 1), cp_rank = 1, cp_lhs = [[- 1000]],
                             cp_rel = [[1000]], cp_rhs = [[1]]\<rparr>) (0, 0, 0) {0} 0 1 = 0"
    by (simp add: unfiltered_above_def)
qed

text \<open>
  Claim C2, as amended. For a query whose true answer scores above the sentinel
  \<open>-1e6\<close>, no candidate of the query's filter list and not its true object is counted:
  the rank is at most 1 plus the number of candidates outside the filter list, other
  than the true object, that score at least as high as the true answer.
\<close>

theorem filtered_candidates_not_counted:
  assumes wf: "wf_model m" and ok: "queries_ok m F queries" and bs: "0 < bs" and cs: "cs \<noteq> 0"
    and k: "k < length queries" and above: "- 1000000 < triple_score m (queries ! k)"
  shows "\<exists>ranks F'. get_ranking m queries F bs cs = Some (Inr ranks, F')
           \<and> ranks ! k \<le> 1 + unfiltered_above m (queries ! k)
                               (set (the (F (key (queries ! k)))) \<union> {obj (queries ! k)})
                               0 (snd (snd (sizes m)))"
proof -
  let ?n = "snd (snd (sizes m))"
  let ?ap = "all_passes m (chunk_of m cs) 0 F queries"
  from get_ranking_ok [OF wf ok bs cs] obtain ranks
    where r: "get_ranking m queries F bs cs = Some (Inr ranks, snd ?ap)"
      "\<forall>k<length queries. ranks ! k = 1 + (\<Sum>c\<leftarrow>fst ?ap. c ! k)"
    by blast
  have keys: "\<forall>t \<in> set queries. F (key t) \<noteq> None"
    using ok by (simp add: queries_ok_def)
  have "(\<Sum>c\<leftarrow>fst ?ap. c ! k)
          \<le> unfiltered_above m (queries ! k)
               (set (the (F (key (queries ! k)))) \<union> {obj (queries ! k)}) 0 ?n"
  proof (cases "chunk_of m cs = 0")
    case True
    then have "?ap = ([], F)" by (subst all_passes.simps) simp
    then show ?thesis by simp
  next
    case False
    then have "0 < chunk_of m cs" by simp
    from all_passes_sum_bound [OF keys k this above subset_refl, of 0]
    show ?thesis .
  qed
  with r k show ?thesis by auto
qed

text \<open>
  The query \<open>(0, 0, 0)\<close> over the three candidates with the filter list \<open>[2]\<close>: the true
  answer scores 1, and of the candidates 1 and 2 that score higher only candidate 1 is
  outside the filter, so the rank is at most 2.
\<close>

theorem filtered_candidates_not_counted_witness:
  "\<exists>ranks F'. get_ranking three_candidates [(0, 0, 0)] [(0, 0) \<mapsto> [2]] 1000 (- 1)
                 = Some (Inr ranks, F')
     \<and> ranks ! 0 \<le> 2"
proof -
  let ?F = "[(0 :: int, 0 :: int) \<mapsto> [2 :: int]]"
  have wf: "wf_model three_candidates"
    by (simp add: three_candidates_def wf_model_def wf_cp_def wf_table_def)
  have ok: "queries_ok three_candidates ?F [(0, 0, 0)]"
    by (simp add: three_candidates_def queries_ok_def ids_ok_def in_table_def key_def sizes_def)
  have bs: "(0 :: int) < 1000" and cs: "(- 1 :: int) \<noteq> 0" by simp_all
  have k: "0 < length [(0 :: int, 0 :: int, 0 :: int)]" by simp
  have sc: "triple_score three_candidates (0, 0, 0) = 1"
    by (simp add: three_candidates_def triple_score_def vmul_def)
  have above: "- 1000000 < triple_score three_candidates ([(0, 0, 0)] ! 0)"
    by (simp add: sc)
  have n: "snd (snd (sizes three_candidates)) = 3"
    by (simp add: three_candidates_def sizes_def)
  have cand: "candidate_score three_candidates (0, 0, 0) (Suc 0) = 2"
    by (simp add: three_candidates_def candidate_score_def candidates_def query_vec_def dot_def vmul_def)
  have ua: "unfiltered_above three_candidates (0, 0, 0) ({2} \<union> {0}) 0 3 = 1"
    by (simp add: unfiltered_above_def sc cand upt_rec)
  from filtered_candidates_not_counted [OF wf ok bs cs k above] obtain ranks F'
    where r: "get_ranking three_candidates [(0, 0, 0)] ?F 1000 (- 1) = Some (Inr ranks, F')"
      and b: "ranks ! 0 \<le> 1 + unfiltered_above three_candidates ([(0, 0, 0)] ! 0)
                 (set (the (?F (key ([(0, 0, 0)] ! 0)))) \<union> {obj ([(0, 0, 0)] ! 0)})
                 0 (snd (snd (sizes three_candidates)))"
    by blast
  from b have "ranks ! 0 \<le> 1 + unfiltered_above three_candidates (0, 0, 0) ({2} \<union> {0}) 0 3"
    by (simp add: key_def obj_def n)
  then have "ranks ! 0 \<le> 2" by (simp only: ua)
  with r show ?thesis by blast
qed

text \<open>
  Claim C2 as stated fails where the true answer scores below the sentinel: two
  candidates, the true object 0 scoring \<open>-2e6\<close> and candidate 1 in the filter list. Both
  are overwritten with \<open>-1e6\<close>, both count, and the rank is 3 although no candidate is
  outside the filter.
\<close>

theorem filtered_candidate_counted_below_sentinel:
  "map_option fst (get_ranking (CP \<lparr>cp_sizes = (1, 1, 2), cp_rank = 1, cp_lhs = [[- 1000]],
                                    cp_rel = [[1000]], cp_rhs = [[2], [1]]\<rparr>)
                     [(0, 0, 0)] [(0, 0) \<mapsto> [1]] 1000 (- 1)) = Some (Inr [3])
   \<and> unfiltered_above (CP \<lparr>cp_sizes = (1, 1, 2), cp_rank = 1, cp_lhs = [[- 1000]],
                             cp_rel = [[1000]], cp_rhs = [[2], [1]]\<rparr>) (0, 0, 0) {1, 0} 0 2 = 0"
proof
  show "map_option fst (get_ranking (CP \<lparr>cp_sizes = (1, 1, 2), cp_rank = 1, cp_lhs = [[- 1000]],
                                    cp_rel = [[1000]], cp_rhs = [[2], [1]]\<rparr>)
                     [(0, 0, 0)] [(0, 0) \<mapsto> [1]] 1000 (- 1)) = Some (Inr [3])"
    by code_simp
  show "unfiltered_above (CP \<lparr>cp_sizes = (1, 1, 2), cp_rank = 1, cp_lhs = [[- 1000]],
                             cp_rel = [[1000]], cp_rhs = [[2], [1]]\<rparr>) (0, 0, 0) {1, 0} 0 2 = 0"
    by (simp add: unfiltered_above_def upt_rec)
qed

text \<open>
  Claim C1. Two candidates scoring 1 and 2, two queries with the key \<open>(0, 0)\<close> and the
  true objects 0 and 1, and an empty filter list. With all candidates in one chunk
  (the default \<open>-1\<close>, or a chunk size of 2) the ranks are 2 and 1; with chunks of one
  candidate they are 1 and 1: in the second pass the first query meets the object of
  the second query in its filter list, appended there during the first pass.
\<close>

theorem chunked_ranks_differ:
  "map_option fst (get_ranking (CP \<lparr>cp_sizes = (1, 1, 2), cp_rank = 1, cp_lhs = [[1]], cp_rel = [[1]],
                                    cp_rhs = [[1], [2]]\<rparr>)
                     [(0, 0, 0), (0, 0, 1)] [(0, 0) \<mapsto> []] 1000 (- 1)) = Some (Inr [2, 1])
   \<and> map_option fst (get_ranking (CP \<lparr>cp_sizes = (1, 1, 2), cp_rank = 1, cp_lhs = [[1]], cp_rel = [[1]],
                                    cp_rhs = [[1], [2]]\<rparr>)
                     [(0, 0, 0), (0, 0, 1)] [(0, 0) \<mapsto> []] 1000 2) = Some (Inr [2, 1])
   \<and> map_option fst (get_ranking (CP \<lparr>cp_sizes = (1, 1, 2), cp_rank = 1, cp_lhs = [[1]], cp_rel = [[1]],
                                    cp_rhs = [[1], [2]]\<rparr>)
                     [(0, 0, 0), (0, 0, 1)] [(0, 0) \<mapsto> []] 1000 1) = Some (Inr [1, 1])"
  by (intro conjI; code_simp)

lemma get_ranking_closed:
  assumes wf: "wf_model m" and ok: "queries_ok m F queries" and bs: "0 < bs" and cs: "cs \<noteq> 0"
    and closed: "\<forall>t \<in> set queries. obj t \<in> set (the (F (key t)))"
  shows "\<exists>F'. get_ranking m queries F bs cs
             = Some (Inr (map (\<lambda>t. 1 + filtered_count m t (set (the (F (key t)))) 0
                                      (snd (snd (sizes m)))) queries), F')"
proof -
  let ?n = "snd (snd (sizes m))"
  let ?ap = "all_passes m (chunk_of m cs) 0 F queries"
  from get_ranking_ok [OF wf ok bs cs] obtain ranks
    where r: "get_ranking m queries F bs cs = Some (Inr ranks, snd ?ap)"
      "length ranks = length queries"
      "\<forall>k<length queries. ranks ! k = 1 + (\<Sum>c\<leftarrow>fst ?ap. c ! k)"
    by blast
  have keys: "\<forall>t \<in> set queries. F (key t) \<noteq> None"
    using ok by (simp add: queries_ok_def)
  have sum: "(\<Sum>c\<leftarrow>fst ?ap. c ! k)
          = filtered_count m (queries ! k) (set (the (F (key (queries ! k))))) 0 ?n"
    if k: "k < length queries" for k
  proof (cases "chunk_of m cs = 0")
    case True
    with cs have "?n = 0" by (auto simp: chunk_of_def split: if_splits)
    moreover have "?ap = ([], F)" using True by (subst all_passes.simps) simp
    ultimately show ?thesis by simp
  next
    case False
    then have "0 < chunk_of m cs" by simp
    from all_passes_sum_closed [OF keys closed k this, of m 0] show ?thesis .
  qed
  have "ranks = map (\<lambda>t. 1 + filtered_count m t (set (the (F (key t)))) 0 ?n) queries"
    by (rule nth_equalityI) (use r(2,3) sum in auto)
  with r(1) show ?thesis by blast
qed

text \<open>
  Chunking and batching do not change the ranks where the filter lists already hold the
  true object of every query: any two calls with positive batch sizes and chunk sizes
  other than 0 return the same ranks.
\<close>

theorem chunking_preserves_ranks_of_closed_filters:
  assumes wf: "wf_model m" and ok: "queries_ok m F queries"
    and closed: "\<forall>t \<in> set queries. obj t \<in> set (the (F (key t)))"
    and bs: "0 < bs" "0 < bs'" and cs: "cs \<noteq> 0" "cs' \<noteq> 0"
  shows "\<exists>ranks F1 F2. get_ranking m queries F bs cs = Some (Inr ranks, F1)
           \<and> get_ranking m queries F bs' cs' = Some (Inr ranks, F2)"
  using get_ranking_closed [OF wf ok bs(1) cs(1) closed]
    get_ranking_closed [OF wf ok bs(2) cs(2) closed]
  by blast

text \<open>
  The three candidates, the queries \<open>(0, 0, 0)\<close> and \<open>(0, 0, 1)\<close> and the filter list
  \<open>[0, 1]\<close>, once in one chunk and once in chunks of one candidate, one query at a time.
\<close>

theorem chunking_preserves_ranks_of_closed_filters_witness:
  "\<exists>ranks F1 F2.
      get_ranking three_candidates [(0, 0, 0), (0, 0, 1)] [(0, 0) \<mapsto> [0, 1]] 1000 (- 1)
        = Some (Inr ranks, F1)
    \<and> get_ranking three_candidates [(0, 0, 0), (0, 0, 1)] [(0, 0) \<mapsto> [0, 1]] 1 1
        = Some (Inr ranks, F2)"
proof -
  let ?F = "[(0 :: int, 0 :: int) \<mapsto> [0, 1 :: int]]"
  have wf: "wf_model three_candidates"
    by (simp add: three_candidates_def wf_model_def wf_cp_def wf_table_def)
  have ok: "queries_ok three_candidates ?F [(0, 0, 0), (0, 0, 1)]"
    by (simp add: three_candidates_def queries_ok_def ids_ok_def in_table_def key_def sizes_def)
  have closed: "\<forall>t \<in> set [(0, 0, 0), (0, 0, 1)]. obj t \<in> set (the (?F (key t)))"
    by (simp add: key_def obj_def)
  have n: "(0 :: int) < 1000" "(0 :: int) < 1" "(- 1 :: int) \<noteq> 0" "(1 :: int) \<noteq> 0"
    by simp_all
  show ?thesis
    by (rule chunking_preserves_ranks_of_closed_filters [OF wf ok closed n])
qed

end
